theory Spec2Isabelle
  imports Main "HOL-Library.Word"
begin

unbundle bit_operations_syntax

section \<open>JavaScript numbers and 32-bit operators\<close>

text \<open>
  A model of the class \<^verbatim>\<open>ByteBuf\<close> of \<^verbatim>\<open>bytebuf.ts\<close>, method by method and under
  the methods' names. What the class inherits or calls from the platform (DataView, the
  typed arrays, TextEncoder, TextDecoder, BigInt and Number) is modelled as ECMAScript
  and the Encoding Standard define it, as far as the class depends on it.

  The API passes offsets, lengths and values as JavaScript numbers. The model covers the
  integral numbers and writes them as \<open>int\<close>; an omitted optional argument is \<open>None\<close>,
  an omitted \<^verbatim>\<open>littleEndian\<close> is \<open>False\<close>. The bitwise operators of JavaScript first
  reduce their operands to 32 bits (ToInt32, ToUint32), take the shift count modulo 32,
  and return a signed result, except \<^verbatim>\<open>>>>\<close> whose result is unsigned.
\<close>

type_synonym byte = "8 word"

definition js_and :: "int \<Rightarrow> int \<Rightarrow> int" where
  "js_and a b = sint ((word_of_int a :: 32 word) AND word_of_int b)"

definition js_or :: "int \<Rightarrow> int \<Rightarrow> int" where
  "js_or a b = sint ((word_of_int a :: 32 word) OR word_of_int b)"

definition js_xor :: "int \<Rightarrow> int \<Rightarrow> int" where
  "js_xor a b = sint ((word_of_int a :: 32 word) XOR word_of_int b)"

definition js_shl :: "int \<Rightarrow> int \<Rightarrow> int" where
  "js_shl a n = sint (push_bit (nat (n mod 32)) (word_of_int a :: 32 word))"

definition js_sar :: "int \<Rightarrow> int \<Rightarrow> int" where
  "js_sar a n = sint (signed_drop_bit (nat (n mod 32)) (word_of_int a :: 32 word))"

definition js_shr :: "int \<Rightarrow> int \<Rightarrow> int" where
  "js_shr a n = uint (drop_bit (nat (n mod 32)) (word_of_int a :: 32 word))"

section \<open>The view and its cursor\<close>

text \<open>
  \<^verbatim>\<open>class ByteBuf extends DataView\<close>. A \<open>ByteBuf\<close> is a DataView (the underlying
  \<^verbatim>\<open>buffer\<close>, the view's start \<^verbatim>\<open>super.byteOffset\<close> in it, and \<^verbatim>\<open>byteLength\<close>)
  with one more field, the private \<^verbatim>\<open>#byteOffset\<close>, which the streaming operations
  use as their cursor and the getter \<^verbatim>\<open>byteOffset\<close> returns.

  Errors are values. \<open>OutOfBounds\<close> is the RangeError of a DataView access or of a typed
  array constructor outside its region, \<open>LengthExceeded\<close> the RangeError the varint and
  varstring codecs throw themselves, \<open>UnsupportedEncoding\<close> the TypeError of
  \<^verbatim>\<open>setString\<close>, \<open>InvalidLabel\<close> the RangeError of \<^verbatim>\<open>new TextDecoder(label)\<close> for an
  encoding the platform does not support, and \<open>Misaligned\<close> the RangeError of a
  \<^verbatim>\<open>Uint16Array\<close> constructor at an odd offset or over an odd number of bytes.
\<close>

datatype error =
    OutOfBounds
  | LengthExceeded
  | UnsupportedEncoding
  | InvalidLabel
  | Misaligned

record ByteBuf =
  buffer :: "byte list"
  super_byteOffset :: nat
  byteLength :: nat
  byteOffset :: int

text \<open>The DataView constructor only builds views that lie inside their buffer.\<close>

definition valid_view :: "ByteBuf \<Rightarrow> bool" where
  "valid_view b \<longleftrightarrow> super_byteOffset b + byteLength b \<le> length (buffer b)"

text \<open>
  The constructor of DataView: the offset defaults to 0, the length to the rest of the
  buffer; a negative offset or length, and a view that leaves the buffer, are
  RangeErrors. The field initialiser \<^verbatim>\<open>#byteOffset = super.byteOffset\<close> runs after it.
\<close>

definition new_ByteBuf :: "byte list \<Rightarrow> int option \<Rightarrow> int option \<Rightarrow> error + ByteBuf" where
  "new_ByteBuf buf off len =
     (let offset = (case off of None \<Rightarrow> 0 | Some x \<Rightarrow> x) in
      if offset < 0 \<or> int (length buf) < offset then Inl OutOfBounds
      else (case len of
              None \<Rightarrow>
                Inr \<lparr>buffer = buf, super_byteOffset = nat offset,
                     byteLength = length buf - nat offset, byteOffset = offset\<rparr>
            | Some n \<Rightarrow>
                if n < 0 \<or> int (length buf) < offset + n then Inl OutOfBounds
                else Inr \<lparr>buffer = buf, super_byteOffset = nat offset,
                          byteLength = nat n, byteOffset = offset\<rparr>))"

text \<open>
  A \<^verbatim>\<open>BufferSource\<close> is an ArrayBuffer, or a view (a typed array or a DataView) with
  its buffer, its byteOffset and its byteLength.
\<close>

datatype BufferSource =
    ArrayBuffer "byte list"
  | ArrayBufferView "byte list" nat nat

fun source_buffer :: "BufferSource \<Rightarrow> byte list" where
  "source_buffer (ArrayBuffer buf) = buf"
| "source_buffer (ArrayBufferView buf off len) = buf"

fun source_byteLength :: "BufferSource \<Rightarrow> int" where
  "source_byteLength (ArrayBuffer buf) = int (length buf)"
| "source_byteLength (ArrayBufferView buf off len) = int len"

definition ByteBuf_from :: "BufferSource \<Rightarrow> int option \<Rightarrow> int option \<Rightarrow> error + ByteBuf" where
  "ByteBuf_from source off len =
     (let buf = source_buffer source;
          off' = (case source of
                    ArrayBuffer _ \<Rightarrow> off
                  | ArrayBufferView _ soff _ \<Rightarrow>
                      Some (int soff + (case off of None \<Rightarrow> 0 | Some x \<Rightarrow> x)))
      in case len of
           None \<Rightarrow> new_ByteBuf buf off' None
         | Some n \<Rightarrow> new_ByteBuf buf off' (Some (min (source_byteLength source) n)))"

definition bytesRemaining :: "ByteBuf \<Rightarrow> int" where
  "bytesRemaining b = int (byteLength b) - byteOffset b"

definition skip :: "ByteBuf \<Rightarrow> int \<Rightarrow> ByteBuf" where
  "skip b n = b\<lparr>byteOffset := byteOffset b + n\<rparr>"

definition reset :: "ByteBuf \<Rightarrow> ByteBuf" where
  "reset b = b\<lparr>byteOffset := int (super_byteOffset b)\<rparr>"

section \<open>Fixed-width access\<close>

text \<open>
  The accessors of DataView take an offset relative to the view and throw a RangeError
  when the offset is negative or the value does not fit before the view's end.
\<close>

definition in_view :: "ByteBuf \<Rightarrow> int \<Rightarrow> nat \<Rightarrow> bool" where
  "in_view b off w \<longleftrightarrow> 0 \<le> off \<and> off + int w \<le> int (byteLength b)"

definition GetViewValue :: "ByteBuf \<Rightarrow> int \<Rightarrow> nat \<Rightarrow> error + byte list" where
  "GetViewValue b off w =
     (if in_view b off w
      then Inr (take w (drop (super_byteOffset b + nat off) (buffer b)))
      else Inl OutOfBounds)"

definition SetViewValue :: "ByteBuf \<Rightarrow> int \<Rightarrow> byte list \<Rightarrow> error + ByteBuf" where
  "SetViewValue b off bs =
     (if in_view b off (length bs)
      then Inr (b\<lparr>buffer := take (super_byteOffset b + nat off) (buffer b) @ bs @
                   drop (super_byteOffset b + nat off + length bs) (buffer b)\<rparr>)
      else Inl OutOfBounds)"

text \<open>
  \<open>region b off bs\<close> is the buffer \<open>b\<close> with the bytes \<open>bs\<close> stored at offset \<open>off\<close> of
  the view and every other byte, and the cursor, as they were.
\<close>

definition region :: "ByteBuf \<Rightarrow> int \<Rightarrow> byte list \<Rightarrow> ByteBuf" where
  "region b off bs =
     b\<lparr>buffer := take (super_byteOffset b + nat off) (buffer b) @ bs @
          drop (super_byteOffset b + nat off + length bs) (buffer b)\<rparr>"

text \<open>Numbers as bytes: least significant byte first, reversed for big-endian.\<close>

primrec encode_le :: "nat \<Rightarrow> int \<Rightarrow> byte list" where
  "encode_le 0 v = []"
| "encode_le (Suc n) v = word_of_int v # encode_le n (v div 256)"

primrec decode_le :: "byte list \<Rightarrow> int" where
  "decode_le [] = 0"
| "decode_le (x # xs) = uint x + 256 * decode_le xs"

definition to_bytes :: "nat \<Rightarrow> bool \<Rightarrow> int \<Rightarrow> byte list" where
  "to_bytes w littleEndian v = (if littleEndian then encode_le w v else rev (encode_le w v))"

definition from_bytes :: "bool \<Rightarrow> byte list \<Rightarrow> int" where
  "from_bytes littleEndian bs = decode_le (if littleEndian then bs else rev bs)"

definition to_signed :: "nat \<Rightarrow> int \<Rightarrow> int" where
  "to_signed bits u = (if 2 ^ (bits - 1) \<le> u then u - 2 ^ bits else u)"

definition getInt8 :: "ByteBuf \<Rightarrow> int \<Rightarrow> error + int" where
  "getInt8 b off =
     (if in_view b off 1 then Inr (sint (buffer b ! (super_byteOffset b + nat off)))
      else Inl OutOfBounds)"

definition setInt8 :: "ByteBuf \<Rightarrow> int \<Rightarrow> int \<Rightarrow> error + ByteBuf" where
  "setInt8 b off v =
     (if in_view b off 1
      then Inr (b\<lparr>buffer := (buffer b)[super_byteOffset b + nat off := word_of_int v]\<rparr>)
      else Inl OutOfBounds)"

definition getUint8 :: "ByteBuf \<Rightarrow> int \<Rightarrow> error + int" where
  "getUint8 b off =
     (if in_view b off 1 then Inr (uint (buffer b ! (super_byteOffset b + nat off)))
      else Inl OutOfBounds)"

definition setUint8 :: "ByteBuf \<Rightarrow> int \<Rightarrow> int \<Rightarrow> error + ByteBuf" where
  "setUint8 b off v =
     (if in_view b off 1
      then Inr (b\<lparr>buffer := (buffer b)[super_byteOffset b + nat off := word_of_int v]\<rparr>)
      else Inl OutOfBounds)"

definition getBool :: "ByteBuf \<Rightarrow> int \<Rightarrow> error + bool" where
  "getBool b off = map_sum id (\<lambda>v. v \<noteq> 0) (getInt8 b off)"

definition setBool :: "ByteBuf \<Rightarrow> int \<Rightarrow> bool \<Rightarrow> error + ByteBuf" where
  "setBool b off v = setInt8 b off (if v then 1 else 0)"

definition getInt16 :: "ByteBuf \<Rightarrow> int \<Rightarrow> bool \<Rightarrow> error + int" where
  "getInt16 b off le = map_sum id (\<lambda>bs. to_signed 16 (from_bytes le bs)) (GetViewValue b off 2)"

definition setInt16 :: "ByteBuf \<Rightarrow> int \<Rightarrow> int \<Rightarrow> bool \<Rightarrow> error + ByteBuf" where
  "setInt16 b off v le = SetViewValue b off (to_bytes 2 le v)"

definition getUint16 :: "ByteBuf \<Rightarrow> int \<Rightarrow> bool \<Rightarrow> error + int" where
  "getUint16 b off le = map_sum id (from_bytes le) (GetViewValue b off 2)"

definition setUint16 :: "ByteBuf \<Rightarrow> int \<Rightarrow> int \<Rightarrow> bool \<Rightarrow> error + ByteBuf" where
  "setUint16 b off v le = SetViewValue b off (to_bytes 2 le v)"

definition getInt32 :: "ByteBuf \<Rightarrow> int \<Rightarrow> bool \<Rightarrow> error + int" where
  "getInt32 b off le = map_sum id (\<lambda>bs. to_signed 32 (from_bytes le bs)) (GetViewValue b off 4)"

definition setInt32 :: "ByteBuf \<Rightarrow> int \<Rightarrow> int \<Rightarrow> bool \<Rightarrow> error + ByteBuf" where
  "setInt32 b off v le = SetViewValue b off (to_bytes 4 le v)"

definition getUint32 :: "ByteBuf \<Rightarrow> int \<Rightarrow> bool \<Rightarrow> error + int" where
  "getUint32 b off le = map_sum id (from_bytes le) (GetViewValue b off 4)"

definition setUint32 :: "ByteBuf \<Rightarrow> int \<Rightarrow> int \<Rightarrow> bool \<Rightarrow> error + ByteBuf" where
  "setUint32 b off v le = SetViewValue b off (to_bytes 4 le v)"

text \<open>
  A float is written as its IEEE-754 bit pattern, a 32-bit or 64-bit word: the model
  moves the pattern between the caller and the bytes and leaves the conversion between
  a JavaScript number and its pattern to the platform.
\<close>

definition getFloat32 :: "ByteBuf \<Rightarrow> int \<Rightarrow> bool \<Rightarrow> error + 32 word" where
  "getFloat32 b off le = map_sum id (\<lambda>bs. word_of_int (from_bytes le bs)) (GetViewValue b off 4)"

definition setFloat32 :: "ByteBuf \<Rightarrow> int \<Rightarrow> 32 word \<Rightarrow> bool \<Rightarrow> error + ByteBuf" where
  "setFloat32 b off v le = SetViewValue b off (to_bytes 4 le (uint v))"

definition getFloat64 :: "ByteBuf \<Rightarrow> int \<Rightarrow> bool \<Rightarrow> error + 64 word" where
  "getFloat64 b off le = map_sum id (\<lambda>bs. word_of_int (from_bytes le bs)) (GetViewValue b off 8)"

definition setFloat64 :: "ByteBuf \<Rightarrow> int \<Rightarrow> 64 word \<Rightarrow> bool \<Rightarrow> error + ByteBuf" where
  "setFloat64 b off v le = SetViewValue b off (to_bytes 8 le (uint v))"

definition getBigInt64 :: "ByteBuf \<Rightarrow> int \<Rightarrow> bool \<Rightarrow> error + int" where
  "getBigInt64 b off le = map_sum id (\<lambda>bs. to_signed 64 (from_bytes le bs)) (GetViewValue b off 8)"

definition setBigInt64 :: "ByteBuf \<Rightarrow> int \<Rightarrow> int \<Rightarrow> bool \<Rightarrow> error + ByteBuf" where
  "setBigInt64 b off v le = SetViewValue b off (to_bytes 8 le v)"

definition getBigUint64 :: "ByteBuf \<Rightarrow> int \<Rightarrow> bool \<Rightarrow> error + int" where
  "getBigUint64 b off le = map_sum id (from_bytes le) (GetViewValue b off 8)"

definition setBigUint64 :: "ByteBuf \<Rightarrow> int \<Rightarrow> int \<Rightarrow> bool \<Rightarrow> error + ByteBuf" where
  "setBigUint64 b off v le = SetViewValue b off (to_bytes 8 le v)"

text \<open>
  \<^verbatim>\<open>getInt64\<close> and \<^verbatim>\<open>getUint64\<close> return \<^verbatim>\<open>Number(bigint)\<close>: the IEEE double nearest
  to the integer, ties to the even significand. A double has 53 significant bits, so an
  integer of more bits loses its low bits. \<^verbatim>\<open>BigInt(value)\<close> of an integral number is
  that integer.
\<close>

function bit_len :: "int \<Rightarrow> nat" where
  "bit_len a = (if a \<le> 0 then 0 else Suc (bit_len (a div 2)))"
  by pat_completeness auto
termination
  by (relation "measure nat") auto

declare bit_len.simps [simp del]

definition Number :: "int \<Rightarrow> int" where
  "Number v =
     (let a = \<bar>v\<bar>; e = bit_len a - 53 in
      if e = 0 then v
      else (let q = a div 2 ^ e; r = a mod 2 ^ e; h = 2 ^ (e - 1);
                q' = (if h < r \<or> (r = h \<and> odd q) then q + 1 else q)
            in sgn v * (q' * 2 ^ e)))"

definition BigInt :: "int \<Rightarrow> int" where
  "BigInt v = v"

definition getInt64 :: "ByteBuf \<Rightarrow> int \<Rightarrow> bool \<Rightarrow> error + int" where
  "getInt64 b off le = map_sum id Number (getBigInt64 b off le)"

definition setInt64 :: "ByteBuf \<Rightarrow> int \<Rightarrow> int \<Rightarrow> bool \<Rightarrow> error + ByteBuf" where
  "setInt64 b off v le = setBigInt64 b off (BigInt v) le"

definition getUint64 :: "ByteBuf \<Rightarrow> int \<Rightarrow> bool \<Rightarrow> error + int" where
  "getUint64 b off le = map_sum id Number (getBigUint64 b off le)"

definition setUint64 :: "ByteBuf \<Rightarrow> int \<Rightarrow> int \<Rightarrow> bool \<Rightarrow> error + ByteBuf" where
  "setUint64 b off v le = setBigUint64 b off (BigInt v) le"

subsection \<open>Streaming forms\<close>

text \<open>
  A streaming operation returns its result and the buffer as it leaves it. The one-byte
  forms pass \<^verbatim>\<open>this.#byteOffset++\<close> as the offset: the cursor is incremented before
  the access, whether or not the access throws. The wider forms add the width after the
  access, so a throwing access leaves the cursor as it was.
\<close>

definition advance :: "ByteBuf \<Rightarrow> int \<Rightarrow> ByteBuf" where
  "advance b n = b\<lparr>byteOffset := byteOffset b + n\<rparr>"

definition read_after :: "(error + 'a) \<Rightarrow> ByteBuf \<Rightarrow> int \<Rightarrow> (error + 'a) \<times> ByteBuf" where
  "read_after r b w = (case r of Inl e \<Rightarrow> (Inl e, b) | Inr v \<Rightarrow> (Inr v, advance b w))"

definition write_after :: "(error + ByteBuf) \<Rightarrow> ByteBuf \<Rightarrow> int \<Rightarrow> (error + unit) \<times> ByteBuf" where
  "write_after r b w = (case r of Inl e \<Rightarrow> (Inl e, b) | Inr b' \<Rightarrow> (Inr (), advance b' w))"

definition write_before :: "(error + ByteBuf) \<Rightarrow> ByteBuf \<Rightarrow> (error + unit) \<times> ByteBuf" where
  "write_before r b =
     (case r of Inl e \<Rightarrow> (Inl e, advance b 1) | Inr b' \<Rightarrow> (Inr (), advance b' 1))"

definition readBool :: "ByteBuf \<Rightarrow> (error + bool) \<times> ByteBuf" where
  "readBool b = (map_sum id (\<lambda>v. v \<noteq> 0) (getInt8 b (byteOffset b)), advance b 1)"

definition writeBool :: "ByteBuf \<Rightarrow> bool \<Rightarrow> (error + unit) \<times> ByteBuf" where
  "writeBool b v = write_before (setInt8 b (byteOffset b) (if v then 1 else 0)) b"

definition readInt8 :: "ByteBuf \<Rightarrow> (error + int) \<times> ByteBuf" where
  "readInt8 b = (getInt8 b (byteOffset b), advance b 1)"

definition writeInt8 :: "ByteBuf \<Rightarrow> int \<Rightarrow> (error + unit) \<times> ByteBuf" where
  "writeInt8 b v = write_before (setInt8 b (byteOffset b) v) b"

definition readUint8 :: "ByteBuf \<Rightarrow> (error + int) \<times> ByteBuf" where
  "readUint8 b = (getUint8 b (byteOffset b), advance b 1)"

definition writeUint8 :: "ByteBuf \<Rightarrow> int \<Rightarrow> (error + unit) \<times> ByteBuf" where
  "writeUint8 b v = write_before (setUint8 b (byteOffset b) v) b"

definition readInt16 :: "ByteBuf \<Rightarrow> bool \<Rightarrow> (error + int) \<times> ByteBuf" where
  "readInt16 b le = read_after (getInt16 b (byteOffset b) le) b 2"

definition writeInt16 :: "ByteBuf \<Rightarrow> int \<Rightarrow> bool \<Rightarrow> (error + unit) \<times> ByteBuf" where
  "writeInt16 b v le = write_after (setInt16 b (byteOffset b) v le) b 2"

definition readUint16 :: "ByteBuf \<Rightarrow> bool \<Rightarrow> (error + int) \<times> ByteBuf" where
  "readUint16 b le = read_after (getUint16 b (byteOffset b) le) b 2"

definition writeUint16 :: "ByteBuf \<Rightarrow> int \<Rightarrow> bool \<Rightarrow> (error + unit) \<times> ByteBuf" where
  "writeUint16 b v le = write_after (setUint16 b (byteOffset b) v le) b 2"

definition readInt32 :: "ByteBuf \<Rightarrow> bool \<Rightarrow> (error + int) \<times> ByteBuf" where
  "readInt32 b le = read_after (getInt32 b (byteOffset b) le) b 4"

definition writeInt32 :: "ByteBuf \<Rightarrow> int \<Rightarrow> bool \<Rightarrow> (error + unit) \<times> ByteBuf" where
  "writeInt32 b v le = write_after (setInt32 b (byteOffset b) v le) b 4"

definition readUint32 :: "ByteBuf \<Rightarrow> bool \<Rightarrow> (error + int) \<times> ByteBuf" where
  "readUint32 b le = read_after (getUint32 b (byteOffset b) le) b 4"

definition writeUint32 :: "ByteBuf \<Rightarrow> int \<Rightarrow> bool \<Rightarrow> (error + unit) \<times> ByteBuf" where
  "writeUint32 b v le = write_after (setUint32 b (byteOffset b) v le) b 4"

definition readFloat32 :: "ByteBuf \<Rightarrow> bool \<Rightarrow> (error + 32 word) \<times> ByteBuf" where
  "readFloat32 b le = read_after (getFloat32 b (byteOffset b) le) b 4"

definition writeFloat32 :: "ByteBuf \<Rightarrow> 32 word \<Rightarrow> bool \<Rightarrow> (error + unit) \<times> ByteBuf" where
  "writeFloat32 b v le = write_after (setFloat32 b (byteOffset b) v le) b 4"

definition readFloat64 :: "ByteBuf \<Rightarrow> bool \<Rightarrow> (error + 64 word) \<times> ByteBuf" where
  "readFloat64 b le = read_after (getFloat64 b (byteOffset b) le) b 8"

definition writeFloat64 :: "ByteBuf \<Rightarrow> 64 word \<Rightarrow> bool \<Rightarrow> (error + unit) \<times> ByteBuf" where
  "writeFloat64 b v le = write_after (setFloat64 b (byteOffset b) v le) b 8"

definition readBigInt64 :: "ByteBuf \<Rightarrow> bool \<Rightarrow> (error + int) \<times> ByteBuf" where
  "readBigInt64 b le = read_after (getBigInt64 b (byteOffset b) le) b 8"

definition writeBigInt64 :: "ByteBuf \<Rightarrow> int \<Rightarrow> bool \<Rightarrow> (error + unit) \<times> ByteBuf" where
  "writeBigInt64 b v le = write_after (setBigInt64 b (byteOffset b) v le) b 8"

definition readBigUint64 :: "ByteBuf \<Rightarrow> bool \<Rightarrow> (error + int) \<times> ByteBuf" where
  "readBigUint64 b le = read_after (getBigUint64 b (byteOffset b) le) b 8"

definition writeBigUint64 :: "ByteBuf \<Rightarrow> int \<Rightarrow> bool \<Rightarrow> (error + unit) \<times> ByteBuf" where
  "writeBigUint64 b v le = write_after (setBigUint64 b (byteOffset b) v le) b 8"

definition readInt64 :: "ByteBuf \<Rightarrow> bool \<Rightarrow> (error + int) \<times> ByteBuf" where
  "readInt64 b le = read_after (getInt64 b (byteOffset b) le) b 8"

definition writeInt64 :: "ByteBuf \<Rightarrow> int \<Rightarrow> bool \<Rightarrow> (error + unit) \<times> ByteBuf" where
  "writeInt64 b v le = write_after (setInt64 b (byteOffset b) v le) b 8"

definition readUint64 :: "ByteBuf \<Rightarrow> bool \<Rightarrow> (error + int) \<times> ByteBuf" where
  "readUint64 b le = read_after (getUint64 b (byteOffset b) le) b 8"

definition writeUint64 :: "ByteBuf \<Rightarrow> int \<Rightarrow> bool \<Rightarrow> (error + unit) \<times> ByteBuf" where
  "writeUint64 b v le = write_after (setUint64 b (byteOffset b) v le) b 8"

section \<open>Variable-length integers\<close>

text \<open>
  The two loops of \<^verbatim>\<open>getVarInt\<close> and \<^verbatim>\<open>setVarInt\<close>, with the loop variables as
  arguments. An \<open>IntResult\<close> is the pair of the value and the byte length. The
  optional \<^verbatim>\<open>maxByteLength\<close> defaults to 10 in both. \<^verbatim>\<open>setVarInt\<close> writes byte
  after byte, so the bytes written before it throws stay written.
\<close>

type_synonym IntResult = "int \<times> int"

function getVarInt_loop ::
  "ByteBuf \<Rightarrow> int \<Rightarrow> int \<Rightarrow> int \<Rightarrow> int \<Rightarrow> int \<Rightarrow> error + IntResult" where
  "getVarInt_loop b off maxByteLength val len bitShift =
     (if len < maxByteLength then
        (case getUint8 b (off + len) of
           Inl e \<Rightarrow> Inl e
         | Inr byte \<Rightarrow>
             (let val' = js_or val (js_shl (js_and byte 0x7f) bitShift) in
              if js_and byte 0x80 = 0 then Inr (val', len + 1)
              else getVarInt_loop b off maxByteLength val' (len + 1) (bitShift + 7)))
      else Inl LengthExceeded)"
  by pat_completeness auto
termination
  by (relation "measure (\<lambda>(b, off, m, val, len, bitShift). nat (m - len))") auto

declare getVarInt_loop.simps [simp del]

definition getVarInt :: "ByteBuf \<Rightarrow> int \<Rightarrow> int option \<Rightarrow> error + IntResult" where
  "getVarInt b off maxByteLength =
     getVarInt_loop b off (case maxByteLength of None \<Rightarrow> 10 | Some m \<Rightarrow> m) 0 0 0"

function setVarInt_loop ::
  "ByteBuf \<Rightarrow> int \<Rightarrow> int \<Rightarrow> int \<Rightarrow> int \<Rightarrow> (error + int) \<times> ByteBuf" where
  "setVarInt_loop b off val maxByteLength len =
     (if len \<le> maxByteLength then
        (let byte = js_and val 0x7f;
             val' = js_shr val 7;
             byte' = (if val' \<noteq> 0 then js_or byte 0x80 else byte) in
         case setUint8 b off byte' of
           Inl e \<Rightarrow> (Inl e, b)
         | Inr b' \<Rightarrow>
             if val' = 0 then (Inr len, b')
             else setVarInt_loop b' (off + 1) val' maxByteLength (len + 1))
      else (Inl LengthExceeded, b))"
  by pat_completeness auto
termination
  by (relation "measure (\<lambda>(b, off, val, m, len). nat (m + 1 - len))") auto

declare setVarInt_loop.simps [simp del]

definition setVarInt :: "ByteBuf \<Rightarrow> int \<Rightarrow> int \<Rightarrow> int option \<Rightarrow> (error + int) \<times> ByteBuf" where
  "setVarInt b off val maxByteLength =
     setVarInt_loop b off val (case maxByteLength of None \<Rightarrow> 10 | Some m \<Rightarrow> m) 1"

text \<open>
  The wire format as the specification words it: base-128 groups, least significant
  first, seven value bits in the low bits of each byte and the high bit set when more
  bytes follow.
\<close>

function spec_varint :: "int \<Rightarrow> byte list" where
  "spec_varint u =
     (if u < 128 then [word_of_int u]
      else word_of_int (u mod 128 + 128) # spec_varint (u div 128))"
  by pat_completeness auto
termination
  by (relation "measure nat") auto

declare spec_varint.simps [simp del]

definition readVarInt :: "ByteBuf \<Rightarrow> int option \<Rightarrow> (error + int) \<times> ByteBuf" where
  "readVarInt b maxByteLength =
     (case getVarInt b (byteOffset b) maxByteLength of
        Inl e \<Rightarrow> (Inl e, b)
      | Inr (val, len) \<Rightarrow> (Inr val, advance b len))"

definition writeVarInt :: "ByteBuf \<Rightarrow> int \<Rightarrow> int option \<Rightarrow> (error + unit) \<times> ByteBuf" where
  "writeVarInt b val maxByteLength =
     (case setVarInt b (byteOffset b) val maxByteLength of
        (Inl e, b') \<Rightarrow> (Inl e, b')
      | (Inr len, b') \<Rightarrow> (Inr (), advance b' len))"

definition getVarUint :: "ByteBuf \<Rightarrow> int \<Rightarrow> int option \<Rightarrow> error + IntResult" where
  "getVarUint b off maxByteLength =
     map_sum id (\<lambda>(val, len). (js_shr val 0, len)) (getVarInt b off maxByteLength)"

definition readVarUint :: "ByteBuf \<Rightarrow> int option \<Rightarrow> (error + int) \<times> ByteBuf" where
  "readVarUint b maxByteLength =
     (case getVarUint b (byteOffset b) maxByteLength of
        Inl e \<Rightarrow> (Inl e, b)
      | Inr (val, len) \<Rightarrow> (Inr val, advance b len))"

definition setVarUint :: "ByteBuf \<Rightarrow> int \<Rightarrow> int \<Rightarrow> int option \<Rightarrow> (error + int) \<times> ByteBuf" where
  "setVarUint b off val maxByteLength = setVarInt b off (js_shr val 0) maxByteLength"

definition writeVarUint :: "ByteBuf \<Rightarrow> int \<Rightarrow> int option \<Rightarrow> (error + unit) \<times> ByteBuf" where
  "writeVarUint b val maxByteLength =
     (case setVarUint b (byteOffset b) val maxByteLength of
        (Inl e, b') \<Rightarrow> (Inl e, b')
      | (Inr len, b') \<Rightarrow> (Inr (), advance b' len))"

text \<open>
  The zigzag value of a signed number: 0, -1, 1, -2, 2, \<dots> become 0, 1, 2, 3, 4, \<dots>
\<close>

definition zigzag :: "int \<Rightarrow> int" where
  "zigzag n = (if 0 \<le> n then 2 * n else - 2 * n - 1)"

definition getVarZint :: "ByteBuf \<Rightarrow> int \<Rightarrow> int option \<Rightarrow> error + IntResult" where
  "getVarZint b off maxByteLength =
     map_sum id (\<lambda>(val, len). (js_xor (js_sar val 1) (- (js_and val 1)), len))
       (getVarInt b off maxByteLength)"

definition readVarZint :: "ByteBuf \<Rightarrow> int option \<Rightarrow> (error + int) \<times> ByteBuf" where
  "readVarZint b maxByteLength =
     (case getVarZint b (byteOffset b) maxByteLength of
        Inl e \<Rightarrow> (Inl e, b)
      | Inr (val, len) \<Rightarrow> (Inr val, advance b len))"

definition setVarZint :: "ByteBuf \<Rightarrow> int \<Rightarrow> int \<Rightarrow> int option \<Rightarrow> (error + int) \<times> ByteBuf" where
  "setVarZint b off val maxByteLength =
     setVarInt b off (js_xor (js_sar val 31) (js_shl val 1)) maxByteLength"

definition writeVarZint :: "ByteBuf \<Rightarrow> int \<Rightarrow> int option \<Rightarrow> (error + unit) \<times> ByteBuf" where
  "writeVarZint b val maxByteLength =
     (case setVarZint b (byteOffset b) val maxByteLength of
        (Inl e, b') \<Rightarrow> (Inl e, b')
      | (Inr len, b') \<Rightarrow> (Inr (), advance b' len))"

section \<open>Array views\<close>

text \<open>
  A typed array over the ByteBuf's buffer: its element size in bytes, its start in the
  buffer and its number of elements. It aliases the buffer, so its contents are read
  from the buffer. The constructor \<^verbatim>\<open>new Uint8Array(buffer, byteOffset, length)\<close>,
  and the one of \<^verbatim>\<open>Uint16Array\<close>, take an offset into the buffer (not into the view)
  and, when the length is omitted, go on to the end of the buffer.
\<close>

datatype TypedArray = TypedArray (elementSize: nat) (array_byteOffset: nat) (array_length: nat)

definition array_byteLength :: "TypedArray \<Rightarrow> nat" where
  "array_byteLength a = elementSize a * array_length a"

definition array_bytes :: "byte list \<Rightarrow> TypedArray \<Rightarrow> byte list" where
  "array_bytes buf a = take (array_byteLength a) (drop (array_byteOffset a) buf)"

definition new_TypedArray :: "nat \<Rightarrow> byte list \<Rightarrow> int \<Rightarrow> int option \<Rightarrow> error + TypedArray" where
  "new_TypedArray sz buf off len =
     (if off < 0 then Inl OutOfBounds
      else if nat off mod sz \<noteq> 0 then Inl Misaligned
      else (case len of
              None \<Rightarrow>
                if length buf mod sz \<noteq> 0 then Inl Misaligned
                else if int (length buf) < off then Inl OutOfBounds
                else Inr (TypedArray sz (nat off) ((length buf - nat off) div sz))
            | Some n \<Rightarrow>
                if n < 0 then Inl OutOfBounds
                else if int (length buf) < off + n * int sz then Inl OutOfBounds
                else Inr (TypedArray sz (nat off) (nat n))))"

text \<open>\<^verbatim>\<open>target.set(source)\<close> copies the source's bytes to the start of the target.\<close>

definition TypedArray_set :: "byte list \<Rightarrow> TypedArray \<Rightarrow> byte list \<Rightarrow> error + byte list" where
  "TypedArray_set buf a src =
     (if array_byteLength a < length src then Inl OutOfBounds
      else Inr (take (array_byteOffset a) buf @ src @
                drop (array_byteOffset a + length src) buf))"

definition getUint8Array :: "ByteBuf \<Rightarrow> int \<Rightarrow> int option \<Rightarrow> error + TypedArray" where
  "getUint8Array b off len = new_TypedArray 1 (buffer b) (int (super_byteOffset b) + off) len"

definition readUint8Array :: "ByteBuf \<Rightarrow> int option \<Rightarrow> (error + TypedArray) \<times> ByteBuf" where
  "readUint8Array b len =
     (case getUint8Array b (byteOffset b) len of
        Inl e \<Rightarrow> (Inl e, b)
      | Inr a \<Rightarrow> (Inr a, advance b (int (array_byteLength a))))"

definition setUint8Array :: "ByteBuf \<Rightarrow> int \<Rightarrow> byte list \<Rightarrow> error + ByteBuf" where
  "setUint8Array b off val =
     (case getUint8Array b off (Some (int (length val))) of
        Inl e \<Rightarrow> Inl e
      | Inr a \<Rightarrow> map_sum id (\<lambda>buf. b\<lparr>buffer := buf\<rparr>) (TypedArray_set (buffer b) a val))"

definition writeUint8Array :: "ByteBuf \<Rightarrow> byte list \<Rightarrow> (error + unit) \<times> ByteBuf" where
  "writeUint8Array b val = write_after (setUint8Array b (byteOffset b) val) b (int (length val))"

definition getUint16Array :: "ByteBuf \<Rightarrow> int \<Rightarrow> int option \<Rightarrow> error + TypedArray" where
  "getUint16Array b off len =
     new_TypedArray 2 (buffer b) (int (super_byteOffset b) + off)
       (case len of None \<Rightarrow> None | Some n \<Rightarrow> Some (n div 2))"

definition readUint16Array :: "ByteBuf \<Rightarrow> int option \<Rightarrow> (error + TypedArray) \<times> ByteBuf" where
  "readUint16Array b len =
     (case getUint16Array b (byteOffset b) len of
        Inl e \<Rightarrow> (Inl e, b)
      | Inr a \<Rightarrow> (Inr a, advance b (int (array_byteLength a))))"

text \<open>The elements of a \<^verbatim>\<open>Uint16Array\<close> lie in the platform's byte order, little-endian here.\<close>

definition uint16_bytes :: "16 word list \<Rightarrow> byte list" where
  "uint16_bytes val = concat (map (\<lambda>w. encode_le 2 (uint w)) val)"

definition setUint16Array :: "ByteBuf \<Rightarrow> int \<Rightarrow> 16 word list \<Rightarrow> error + ByteBuf" where
  "setUint16Array b off val =
     (case getUint16Array b off (Some (2 * int (length val))) of
        Inl e \<Rightarrow> Inl e
      | Inr a \<Rightarrow>
          map_sum id (\<lambda>buf. b\<lparr>buffer := buf\<rparr>) (TypedArray_set (buffer b) a (uint16_bytes val)))"

definition writeUint16Array :: "ByteBuf \<Rightarrow> 16 word list \<Rightarrow> (error + unit) \<times> ByteBuf" where
  "writeUint16Array b val =
     write_after (setUint16Array b (byteOffset b) val) b (2 * int (length val))"

section \<open>Strings\<close>

text \<open>
  A JavaScript string is a list of UTF-16 code units. \<^verbatim>\<open>TextEncoder\<close> encodes it as
  UTF-8, a lone surrogate as U+FFFD; \<^verbatim>\<open>encodeInto\<close> writes the code points that fit
  whole into the destination, in order, and stops at the first that does not.
\<close>

type_synonym jsstring = "16 word list"

definition is_high :: "16 word \<Rightarrow> bool" where
  "is_high u \<longleftrightarrow> 0xD800 \<le> u \<and> u \<le> 0xDBFF"

definition is_low :: "16 word \<Rightarrow> bool" where
  "is_low u \<longleftrightarrow> 0xDC00 \<le> u \<and> u \<le> 0xDFFF"

definition scalar :: "16 word \<Rightarrow> nat" where
  "scalar u = (if is_high u \<or> is_low u then 0xFFFD else unat u)"

fun code_points :: "jsstring \<Rightarrow> nat list" where
  "code_points [] = []"
| "code_points [u] = [scalar u]"
| "code_points (u # l # rest) =
     (if is_high u \<and> is_low l
      then (0x10000 + (unat u - 0xD800) * 0x400 + (unat l - 0xDC00)) # code_points rest
      else scalar u # code_points (l # rest))"

definition utf8_bytes :: "nat \<Rightarrow> byte list" where
  "utf8_bytes c =
     (if c < 0x80 then [of_nat c]
      else if c < 0x800 then [of_nat (0xC0 + c div 0x40), of_nat (0x80 + c mod 0x40)]
      else if c < 0x10000 then
        [of_nat (0xE0 + c div 0x1000), of_nat (0x80 + c div 0x40 mod 0x40),
         of_nat (0x80 + c mod 0x40)]
      else
        [of_nat (0xF0 + c div 0x40000), of_nat (0x80 + c div 0x1000 mod 0x40),
         of_nat (0x80 + c div 0x40 mod 0x40), of_nat (0x80 + c mod 0x40)])"

definition TextEncoder_encode :: "jsstring \<Rightarrow> byte list" where
  "TextEncoder_encode s = concat (map utf8_bytes (code_points s))"

fun fit :: "byte list list \<Rightarrow> nat \<Rightarrow> byte list" where
  "fit [] cap = []"
| "fit (c # cs) cap = (if length c \<le> cap then c @ fit cs (cap - length c) else [])"

definition encodeInto :: "jsstring \<Rightarrow> nat \<Rightarrow> byte list" where
  "encodeInto s cap = fit (map utf8_bytes (code_points s)) cap"

text \<open>
  \<^verbatim>\<open>TextDecoder\<close> belongs to the platform, and so does the set of encoding labels its
  constructor accepts: \<open>known\<close> is that set. The decoded string is written as the label
  and the bytes handed to \<^verbatim>\<open>decode\<close>.
\<close>

datatype decoded = Decoded string "byte list"

definition label_of :: "string option \<Rightarrow> string" where
  "label_of enc = (case enc of None \<Rightarrow> ''utf-8'' | Some l \<Rightarrow> if l = [] then ''utf-8'' else l)"





text \<open>
  A platform whose \<^verbatim>\<open>TextDecoder\<close> knows two of the labels of the Encoding Standard,
  for the examples below.
\<close>

definition sample_labels :: "string \<Rightarrow> bool" where
  "sample_labels l \<longleftrightarrow> l = ''utf-8'' \<or> l = ''utf-16le''"

definition getString ::
  "(string \<Rightarrow> bool) \<Rightarrow> ByteBuf \<Rightarrow> int \<Rightarrow> int option \<Rightarrow> string option \<Rightarrow> error + decoded" where
  "getString known b off len enc =
     (if \<not> known (label_of enc) then Inl InvalidLabel
      else map_sum id (\<lambda>a. Decoded (label_of enc) (array_bytes (buffer b) a))
             (getUint8Array b off len))"

definition readString ::
  "(string \<Rightarrow> bool) \<Rightarrow> ByteBuf \<Rightarrow> int option \<Rightarrow> string option \<Rightarrow> (error + decoded) \<times> ByteBuf" where
  "readString known b len enc =
     (case getString known b (byteOffset b) len enc of
        Inl e \<Rightarrow> (Inl e, b)
      | Inr s \<Rightarrow>
          (Inr s, case len of
                    None \<Rightarrow> b\<lparr>byteOffset := int (byteLength b)\<rparr>
                  | Some n \<Rightarrow> advance b n))"

definition setString ::
  "ByteBuf \<Rightarrow> int \<Rightarrow> jsstring \<Rightarrow> string option \<Rightarrow> (error + int) \<times> ByteBuf" where
  "setString b off val enc =
     (if enc \<noteq> None \<and> enc \<noteq> Some [] \<and> enc \<noteq> Some ''utf-8'' then (Inl UnsupportedEncoding, b)
      else (case getUint8Array b off
                   (Some (min (int (byteLength b) - off) (int (length val) * 4))) of
              Inl e \<Rightarrow> (Inl e, b)
            | Inr a \<Rightarrow>
                (let bs = encodeInto val (array_length a) in
                 (Inr (int (length bs)),
                  b\<lparr>buffer := take (array_byteOffset a) (buffer b) @ bs @
                       drop (array_byteOffset a + length bs) (buffer b)\<rparr>))))"

definition writeString ::
  "ByteBuf \<Rightarrow> jsstring \<Rightarrow> string option \<Rightarrow> (error + unit) \<times> ByteBuf" where
  "writeString b val enc =
     (case setString b (byteOffset b) val enc of
        (Inl e, b') \<Rightarrow> (Inl e, b')
      | (Inr len, b') \<Rightarrow> (Inr (), advance b' len))"

definition getVarString ::
  "(string \<Rightarrow> bool) \<Rightarrow> ByteBuf \<Rightarrow> int \<Rightarrow> int option \<Rightarrow> error + decoded \<times> int" where
  "getVarString known b off maxByteLength =
     (case getVarUint b off None of
        Inl e \<Rightarrow> Inl e
      | Inr (len, delimeterOffset) \<Rightarrow>
          if (case maxByteLength of None \<Rightarrow> False | Some m \<Rightarrow> m < len) then Inl LengthExceeded
          else map_sum id (\<lambda>s. (s, len + delimeterOffset))
                 (getString known b (off + delimeterOffset) (Some len) None))"

definition readVarString ::
  "(string \<Rightarrow> bool) \<Rightarrow> ByteBuf \<Rightarrow> int option \<Rightarrow> (error + decoded) \<times> ByteBuf" where
  "readVarString known b maxByteLength =
     (case getVarString known b (byteOffset b) maxByteLength of
        Inl e \<Rightarrow> (Inl e, b)
      | Inr (s, len) \<Rightarrow> (Inr s, advance b len))"

definition setVarString :: "ByteBuf \<Rightarrow> int \<Rightarrow> jsstring \<Rightarrow> (error + int) \<times> ByteBuf" where
  "setVarString b off val =
     (let encoded = TextEncoder_encode val; len = int (length encoded) in
      case setVarInt b off len None of
        (Inl e, b') \<Rightarrow> (Inl e, b')
      | (Inr delimeterOffset, b') \<Rightarrow>
          (case setUint8Array b' (off + delimeterOffset) encoded of
             Inl e \<Rightarrow> (Inl e, b')
           | Inr b'' \<Rightarrow> (Inr (delimeterOffset + len), b'')))"

definition writeVarString :: "ByteBuf \<Rightarrow> jsstring \<Rightarrow> (error + int) \<times> ByteBuf" where
  "writeVarString b val =
     (case setVarString b (byteOffset b) val of
        (Inl e, b') \<Rightarrow> (Inl e, b')
      | (Inr len, b') \<Rightarrow> (Inr len, advance b' len))"

section \<open>Properties\<close>

subsection \<open>The 32-bit operators as arithmetic\<close>

lemma sint_eq_uint_32:
  fixes w :: "32 word"
  assumes "uint w < 2 ^ 31"
  shows "sint w = uint w"
proof -
  have "signed_take_bit 31 (uint w) = uint w"
  proof (rule signed_take_bit_int_eq_self)
    show "- (2 ^ 31) \<le> uint w"
      by (rule order_trans [of _ 0]) simp_all
    show "uint w < 2 ^ 31"
      using assms by simp
  qed
  then show ?thesis
    by (simp add: sint_uint)
qed

lemma js_shr_7: "js_shr val 7 = (val mod 2 ^ 32) div 128"
  by (simp add: js_shr_def drop_bit_eq_div uint_div_distrib uint_word_of_int)

lemma js_shr_0: "js_shr val 0 = val mod 2 ^ 32"
  by (simp add: js_shr_def uint_word_of_int)

lemma or_push_bit_eq_add:
  fixes a g :: int
  assumes "0 \<le> a" and "a < 2 ^ n"
  shows "a OR push_bit n g = a + g * 2 ^ n"
proof -
  have "take_bit n a OR push_bit n g = take_bit n a + push_bit n g"
    by (simp only: concat_bit_def [symmetric] concat_bit_eq)
  moreover have "take_bit n a = a"
    using assms by (simp add: take_bit_int_eq_self)
  ultimately show ?thesis
    by (simp add: push_bit_eq_mult)
qed

lemma js_and_127: "js_and val 0x7f = val mod 128"
proof -
  have m: "(127 :: int) = mask 7"
    by (simp add: mask_eq_exp_minus_1)
  have "uint ((word_of_int val :: 32 word) AND 127) = (val mod 2 ^ 32) AND 127"
    by (simp add: uint_and uint_word_of_int)
  also have "\<dots> = take_bit 7 (val mod 2 ^ 32)"
    unfolding m by (simp only: take_bit_eq_mask)
  also have "\<dots> = val mod 2 ^ 32 mod 2 ^ 7"
    by (simp only: take_bit_eq_mod)
  also have "\<dots> = val mod 128"
    by (simp add: mod_mod_cancel)
  finally have u: "uint ((word_of_int val :: 32 word) AND 127) = val mod 128" .
  have "sint ((word_of_int val :: 32 word) AND 127) = uint ((word_of_int val :: 32 word) AND 127)"
    by (rule sint_eq_uint_32) (use pos_mod_bound [of 128 val] in \<open>simp add: u\<close>)
  then show ?thesis
    by (simp add: js_and_def u)
qed

lemma js_or_128:
  assumes "0 \<le> x" and "x < 128"
  shows "js_or x 0x80 = x + 128"
proof -
  have "uint ((word_of_int x :: 32 word) OR 128) = (x mod 2 ^ 32) OR 128"
    by (simp add: uint_or uint_word_of_int)
  also have "x mod 2 ^ 32 = x"
    using assms by simp
  also have "x OR 128 = x + 128"
    using or_push_bit_eq_add [of x 7 1] assms by simp
  finally have u: "uint ((word_of_int x :: 32 word) OR 128) = x + 128" .
  have "sint ((word_of_int x :: 32 word) OR 128) = uint ((word_of_int x :: 32 word) OR 128)"
    by (rule sint_eq_uint_32) (use assms in \<open>simp add: u\<close>)
  then show ?thesis
    by (simp add: js_or_def u)
qed

lemma js_and_128_iff: "js_and x 0x80 = 0 \<longleftrightarrow> \<not> bit x 7"
proof -
  have "(word_of_int x :: 32 word) AND 2 ^ 7 = 0 \<longleftrightarrow> \<not> bit (word_of_int x :: 32 word) 7"
    by (rule and_exp_eq_0_iff_not_bit)
  then have "(word_of_int x :: 32 word) AND 128 = 0 \<longleftrightarrow> \<not> bit x 7"
    by (simp add: bit_word_of_int_iff)
  then show ?thesis
    by (simp add: js_and_def signed_eq_0_iff)
qed

lemma sint_word_of_int_32:
  assumes "0 \<le> x" and "x < 2 ^ 31"
  shows "sint (word_of_int x :: 32 word) = x"
proof -
  have "uint (word_of_int x :: 32 word) = x"
    using assms by (simp add: uint_word_of_int)
  then show ?thesis
    using sint_eq_uint_32 [of "word_of_int x"] assms by simp
qed

lemma js_or_shl:
  assumes "0 \<le> acc" and "acc < 2 ^ n" and "n < 32" and "sh = int n"
  shows "js_or acc (js_shl g sh) = sint (word_of_int (acc + g * 2 ^ n) :: 32 word)"
proof -
  have "(word_of_int (js_shl g sh) :: 32 word) = word_of_int (push_bit n g)"
    using assms(3,4) by (simp add: js_shl_def push_bit_eq_mult)
  then have "(word_of_int acc :: 32 word) OR word_of_int (js_shl g sh) =
      word_of_int (acc OR push_bit n g)"
    by (simp only: word_wi_log_defs)
  also have "acc OR push_bit n g = acc + g * 2 ^ n"
    using assms(1,2) by (rule or_push_bit_eq_add)
  finally show ?thesis
    by (simp add: js_or_def)
qed

lemma uint_byte_of_int:
  assumes "0 \<le> x" and "x < 256"
  shows "uint (word_of_int x :: byte) = x"
  using assms by (simp add: uint_word_of_int)

subsection \<open>Bytes stored in a view\<close>

lemma in_view_length:
  "valid_view b \<Longrightarrow> in_view b off w \<Longrightarrow> super_byteOffset b + nat off + w \<le> length (buffer b)"
  by (simp add: valid_view_def in_view_def) linarith

lemma region_fields [simp]:
  "byteLength (region b off bs) = byteLength b"
  "super_byteOffset (region b off bs) = super_byteOffset b"
  "byteOffset (region b off bs) = byteOffset b"
  by (simp_all add: region_def)

lemma region_Nil: "region b off [] = b"
  by (simp add: region_def)

lemma region_valid_view [simp]:
  "valid_view b \<Longrightarrow> in_view b off (length bs) \<Longrightarrow> valid_view (region b off bs)"
  using in_view_length [of b off "length bs"]
  by (simp add: region_def valid_view_def)

lemma in_view_region [simp]: "in_view (region b off bs) off' w = in_view b off' w"
  by (simp add: region_def in_view_def)

lemma setUint8_region:
  assumes "valid_view b" and "in_view b off 1"
  shows "setUint8 b off v = Inr (region b off [word_of_int v])"
proof -
  have "super_byteOffset b + nat off < length (buffer b)"
    using in_view_length [OF assms] by simp
  then show ?thesis
    using assms(2) by (simp add: setUint8_def region_def upd_conv_take_nth_drop)
qed

lemma region_region_snoc:
  assumes "valid_view b" and "in_view b off (Suc (length bs))"
  shows "region (region b off [x]) (off + 1) bs = region b off (x # bs)"
proof -
  have 0: "0 \<le> off"
    using assms(2) by (simp add: in_view_def)
  have "super_byteOffset b + nat off + Suc (length bs) \<le> length (buffer b)"
    using in_view_length [OF assms] .
  then show ?thesis
    using 0 by (simp add: region_def nat_add_distrib min_def ac_simps)
qed

lemma getUint8_region:
  assumes "valid_view b" and "in_view b off (length bs)" and "i < length bs"
  shows "getUint8 (region b off bs) (off + int i) = Inr (uint (bs ! i))"
proof -
  have 1: "in_view b (off + int i) 1" and 2: "0 \<le> off"
    using assms(2,3) by (simp_all add: in_view_def)
  have 3: "super_byteOffset b + nat off \<le> length (buffer b)"
    using in_view_length [OF assms(1,2)] by simp
  have "super_byteOffset b + nat (off + int i) = super_byteOffset b + nat off + i"
    using 2 by (simp add: nat_add_distrib)
  then have "buffer (region b off bs) ! (super_byteOffset b + nat (off + int i)) = bs ! i"
    using 3 assms(3) by (simp add: region_def nth_append)
  then show ?thesis
    using 1 by (simp add: getUint8_def)
qed

lemma GetViewValue_outside: "\<not> in_view b off w \<Longrightarrow> GetViewValue b off w = Inl OutOfBounds"
  by (simp add: GetViewValue_def)

lemma SetViewValue_region:
  "in_view b off (length bs) \<Longrightarrow> SetViewValue b off bs = Inr (region b off bs)"
  by (simp add: SetViewValue_def region_def)

lemma GetViewValue_region:
  assumes "valid_view b" and "in_view b off (length bs)"
  shows "GetViewValue (region b off bs) off (length bs) = Inr bs"
proof -
  have "super_byteOffset b + nat off \<le> length (buffer b)"
    using in_view_length [OF assms] by simp
  then show ?thesis
    using assms(2) by (simp add: GetViewValue_def) (simp add: region_def)
qed

subsection \<open>The varint loops\<close>

text \<open>
  \<^verbatim>\<open>setVarInt\<close> writes the base-128 groups of the value taken as an unsigned 32-bit
  number, and \<^verbatim>\<open>getVarInt\<close> reads such groups back as a signed 32-bit number.
\<close>

lemma spec_varint_length: "0 < length (spec_varint u)"
  by (subst spec_varint.simps) simp

lemma setVarInt_loop_spec:
  assumes "valid_view b"
    and "u = val mod 2 ^ 32"
    and "in_view b off (length (spec_varint u))"
    and "len + int (length (spec_varint u)) \<le> m + 1"
  shows "setVarInt_loop b off val m len =
         (Inr (len + int (length (spec_varint u)) - 1), region b off (spec_varint u))"
  using assms
proof (induction u arbitrary: val b off len rule: spec_varint.induct)
  case (1 u)
  have u: "0 \<le> u" "u < 2 ^ 32"
    using "1.prems"(2) by simp_all
  have lenm: "len \<le> m"
    using "1.prems"(4) spec_varint_length [of u] by linarith
  have "1 \<le> int (length (spec_varint u))"
    using spec_varint_length [of u] by linarith
  then have v1: "in_view b off 1"
    using "1.prems"(3) by (simp add: in_view_def)
  have shr: "js_shr val 7 = u div 128"
    by (simp add: js_shr_7 "1.prems"(2))
  have and7: "js_and val 0x7f = u mod 128"
    using "1.prems"(2) by (simp add: js_and_127 mod_mod_cancel)
  show ?case
  proof (cases "u < 128")
    case True
    then have "spec_varint u = [word_of_int u]"
      by (subst spec_varint.simps) simp
    moreover have "u div 128 = 0" "u mod 128 = u"
      using True u by simp_all
    ultimately show ?thesis
      using lenm v1 "1.prems"(1)
      by (subst setVarInt_loop.simps) (simp add: shr and7 setUint8_region)
  next
    case False
    let ?g = "word_of_int (u mod 128 + 128) :: byte"
    have sv: "spec_varint u = ?g # spec_varint (u div 128)"
      using False by (subst spec_varint.simps) simp
    have nz: "u div 128 \<noteq> 0"
      using False u by simp
    have or8: "js_or (u mod 128) 0x80 = u mod 128 + 128"
      by (rule js_or_128) simp_all
    have b1: "valid_view (region b off [?g])"
      using "1.prems"(1) v1 by simp
    have small: "u div 128 = (u div 128) mod 2 ^ 32"
      using u by simp
    have v2: "in_view (region b off [?g]) (off + 1) (length (spec_varint (u div 128)))"
      using "1.prems"(3) by (simp add: sv in_view_def)
    have l2: "len + 1 + int (length (spec_varint (u div 128))) \<le> m + 1"
      using "1.prems"(4) by (simp add: sv)
    have rec: "setVarInt_loop (region b off [?g]) (off + 1) (u div 128) m (len + 1) =
        (Inr (len + 1 + int (length (spec_varint (u div 128))) - 1),
         region (region b off [?g]) (off + 1) (spec_varint (u div 128)))"
      by (rule "1.IH" [OF False b1 small v2 l2])
    have rr: "region (region b off [?g]) (off + 1) (spec_varint (u div 128)) =
        region b off (spec_varint u)"
      using region_region_snoc [OF "1.prems"(1), of off "spec_varint (u div 128)" ?g]
        "1.prems"(3) by (simp add: sv)
    have step: "setVarInt_loop b off val m len =
        setVarInt_loop (region b off [?g]) (off + 1) (u div 128) m (len + 1)"
      using lenm v1 "1.prems"(1) nz
      by (subst setVarInt_loop.simps) (simp add: shr and7 or8 setUint8_region)
    show ?thesis
      unfolding step rec rr by (simp add: sv)
  qed
qed

lemma getVarInt_loop_spec:
  assumes "\<And>i. i < length (spec_varint u) \<Longrightarrow>
             getUint8 b (off + len + int i) = Inr (uint (spec_varint u ! i))"
    and "0 \<le> u" and "u < 2 ^ (32 - n)" and "n < 32" and "sh = int n"
    and "0 \<le> acc" and "acc < 2 ^ n"
    and "len + int (length (spec_varint u)) \<le> m"
  shows "getVarInt_loop b off m acc len sh =
         Inr (sint (word_of_int (acc + u * 2 ^ n) :: 32 word), len + int (length (spec_varint u)))"
  using assms
proof (induction u arbitrary: acc len sh n rule: spec_varint.induct)
  case (1 u)
  have lenm: "len < m"
    using "1.prems"(8) spec_varint_length [of u] by linarith
  show ?case
  proof (cases "u < 128")
    case True
    then have sv: "spec_varint u = [word_of_int u]"
      by (subst spec_varint.simps) simp
    have byte: "getUint8 b (off + len) = Inr u"
      using "1.prems"(1) [of 0] True "1.prems"(2) by (simp add: sv uint_byte_of_int)
    have "u mod 128 = u" "\<not> bit u 7"
      using True "1.prems"(2) by (simp_all add: bit_int_def)
    then show ?thesis
      using lenm js_or_shl [OF "1.prems"(6,7,4,5), of u]
      by (subst getVarInt_loop.simps) (simp add: byte js_and_127 js_and_128_iff sv)
  next
    case False
    let ?x = "u mod 128 + 128"
    have sv: "spec_varint u = word_of_int ?x # spec_varint (u div 128)"
      using False by (subst spec_varint.simps) simp
    have ux: "uint (word_of_int ?x :: byte) = ?x"
      by (rule uint_byte_of_int) simp_all
    have "getUint8 b (off + len + int 0) = Inr (uint (spec_varint u ! 0))"
      by (rule "1.prems"(1)) (simp add: sv)
    then have "getUint8 b (off + len + int 0) = Inr ?x"
      by (simp only: sv nth_Cons_0 ux)
    then have byte: "getUint8 b (off + len) = Inr ?x"
      by simp
    have "?x div 128 = u mod 128 div 128 + 1"
      by (rule div_add_self2) simp
    then have x: "?x mod 128 = u mod 128" "bit ?x 7"
      by (simp_all add: bit_int_def)
    have n7: "n + 7 < 32"
    proof (rule ccontr)
      assume "\<not> n + 7 < 32"
      then have "32 - n \<le> 7" by simp
      then have "(2::int) ^ (32 - n) \<le> 2 ^ 7"
        by (rule power_increasing) simp
      then show False
        using False "1.prems"(3) by simp
    qed
    let ?acc = "acc + u mod 128 * 2 ^ n"
    have acc0: "0 \<le> ?acc"
      using "1.prems"(6) by simp
    have "u mod 128 * 2 ^ n \<le> 127 * 2 ^ n"
      by (rule mult_right_mono) simp_all
    then have "?acc < 2 ^ n + 127 * 2 ^ n"
      using "1.prems"(7) by linarith
    also have "\<dots> = 2 ^ (n + 7)"
      by (simp add: power_add)
    finally have acc1: "?acc < 2 ^ (n + 7)" .
    have "(2::int) ^ (n + 7) \<le> 2 ^ 31"
      by (rule power_increasing) (use n7 in simp_all)
    then have acc31: "?acc < 2 ^ 31"
      using acc1 by linarith
    have val': "js_or acc (js_shl (u mod 128) sh) = ?acc"
      using js_or_shl [OF "1.prems"(6,7,4,5), of "u mod 128"]
        sint_word_of_int_32 [OF acc0 acc31] by simp
    have bytes: "\<And>i. i < length (spec_varint (u div 128)) \<Longrightarrow>
        getUint8 b (off + (len + 1) + int i) = Inr (uint (spec_varint (u div 128) ! i))"
      using "1.prems"(1) [of "Suc i" for i] by (simp add: sv add.assoc)
    have u0: "0 \<le> u div 128"
      using "1.prems"(2) by simp
    have "32 - n = (32 - (n + 7)) + 7"
      using n7 by simp
    then have "(2::int) ^ (32 - n) = 2 ^ ((32 - (n + 7)) + 7)"
      by (rule arg_cong)
    then have "(2::int) ^ (32 - n) = 2 ^ (32 - (n + 7)) * 2 ^ 7"
      by (simp only: power_add)
    then have u1: "u div 128 < 2 ^ (32 - (n + 7))"
      using "1.prems"(3) by (simp add: div_less_iff_less_mult)
    have sh': "sh + 7 = int (n + 7)"
      using "1.prems"(5) by simp
    have l2: "len + 1 + int (length (spec_varint (u div 128))) \<le> m"
      using "1.prems"(8) by (simp add: sv)
    have rec: "getVarInt_loop b off m ?acc (len + 1) (sh + 7) =
        Inr (sint (word_of_int (?acc + u div 128 * 2 ^ (n + 7)) :: 32 word),
             len + 1 + int (length (spec_varint (u div 128))))"
      by (rule "1.IH" [OF False bytes u0 u1 n7 sh' acc0 acc1 l2])
    have sum: "?acc + u div 128 * 2 ^ (n + 7) = acc + u * 2 ^ n"
    proof -
      have "acc + r * 2 ^ n + q * 2 ^ (n + 7) = acc + (q * 128 + r) * 2 ^ n" for q r :: int
        by (simp add: power_add algebra_simps)
      from this [of "u mod 128" "u div 128"] show ?thesis
        by (simp only: div_mult_mod_eq)
    qed
    have step: "getVarInt_loop b off m acc len sh =
        getVarInt_loop b off m ?acc (len + 1) (sh + 7)"
      using lenm x
      by (subst getVarInt_loop.simps) (simp add: byte js_and_127 js_and_128_iff val')
    show ?thesis
      unfolding step rec sum by (simp add: sv)
  qed
qed

lemma spec_varint_length_le:
  assumes "0 \<le> u" and "u < 2 ^ (7 * Suc k)"
  shows "length (spec_varint u) \<le> Suc k"
  using assms
proof (induction k arbitrary: u)
  case 0
  then show ?case by (subst spec_varint.simps) simp
next
  case (Suc k)
  show ?case
  proof (cases "u < 128")
    case True
    then show ?thesis by (subst spec_varint.simps) simp
  next
    case False
    have "(2::int) ^ (7 * Suc (Suc k)) = 2 ^ (7 * Suc k) * 128"
      by (simp add: power_add)
    then have "u div 128 < 2 ^ (7 * Suc k)"
      using Suc.prems by (simp only: div_less_iff_less_mult)
    then have "length (spec_varint (u div 128)) \<le> Suc k"
      using Suc.IH [of "u div 128"] Suc.prems(1) by simp
    then show ?thesis
      using False by (subst spec_varint.simps) simp
  qed
qed

lemma setVarInt_region:
  assumes "valid_view b" and "in_view b off (length (spec_varint (val mod 2 ^ 32)))"
  shows "setVarInt b off val None =
     (Inr (int (length (spec_varint (val mod 2 ^ 32)))), region b off (spec_varint (val mod 2 ^ 32)))"
proof -
  have "length (spec_varint (val mod 2 ^ 32)) \<le> Suc 4"
    by (rule spec_varint_length_le) simp_all
  then have "1 + int (length (spec_varint (val mod 2 ^ 32))) \<le> 10 + 1"
    by simp
  from setVarInt_loop_spec [OF assms(1) refl assms(2) this] show ?thesis
    by (simp add: setVarInt_def)
qed

lemma getVarInt_region:
  assumes "valid_view b" and "in_view b off (length (spec_varint (val mod 2 ^ 32)))"
  shows "getVarInt (region b off (spec_varint (val mod 2 ^ 32))) off None =
     Inr (sint (word_of_int val :: 32 word), int (length (spec_varint (val mod 2 ^ 32))))"
proof -
  let ?u = "val mod 2 ^ 32"
  have len: "length (spec_varint ?u) \<le> Suc 4"
    by (rule spec_varint_length_le) simp_all
  have bytes: "\<And>i. i < length (spec_varint ?u) \<Longrightarrow>
      getUint8 (region b off (spec_varint ?u)) (off + 0 + int i) = Inr (uint (spec_varint ?u ! i))"
    using getUint8_region [OF assms] by simp
  have "getVarInt_loop (region b off (spec_varint ?u)) off 10 0 0 0 =
      Inr (sint (word_of_int (0 + ?u * 2 ^ 0) :: 32 word), 0 + int (length (spec_varint ?u)))"
    by (rule getVarInt_loop_spec [OF bytes]) (use len in simp_all)
  moreover have "(word_of_int ?u :: 32 word) = word_of_int val"
    by (simp add: word_of_int_eq_iff take_bit_eq_mod)
  ultimately show ?thesis
    by (simp add: getVarInt_def)
qed

lemma spec_varint_documented:
  "spec_varint 0 = [0x00]" "spec_varint 127 = [0x7f]" "spec_varint 255 = [0xff, 0x01]"
  "spec_varint 2147483647 = [0xff, 0xff, 0xff, 0xff, 0x07]"
  by (simp_all add: spec_varint.simps [of 0] spec_varint.simps [of 127]
      spec_varint.simps [of 255] spec_varint.simps [of 1] spec_varint.simps [of 2147483647]
      spec_varint.simps [of 16777215] spec_varint.simps [of 131071] spec_varint.simps [of 1023]
      spec_varint.simps [of 7])

text \<open>
  C1. For each of the values 0, 127, 255 and 2147483647, and any offset of a view with
  room for the encoding, \<^verbatim>\<open>setVarInt(offset, v)\<close> writes exactly the documented
  bytes \<open>[0x00]\<close>, \<open>[0x7f]\<close>, \<open>[0xff, 0x01]\<close>, \<open>[0xff, 0xff, 0xff, 0xff, 0x07]\<close>
  and nothing else, and returns their number; \<^verbatim>\<open>getVarInt\<close> at the same offset then
  returns the value with that byte length. Byte \<open>i\<close> holds the \<open>i\<close>-th group of seven
  value bits in its low bits, and its high bit is set exactly when another byte follows.
\<close>

theorem setVarInt_documented_bytes:
  assumes "valid_view b"
    and "(v, bs) \<in> {(0, [0x00]), (127, [0x7f]), (255, [0xff, 0x01]),
                     (2147483647, [0xff, 0xff, 0xff, 0xff, 0x07])}"
    and "in_view b off (length bs)"
  shows "setVarInt b off v None = (Inr (int (length bs)), region b off bs) \<and>
         getVarInt (region b off bs) off None = Inr (v, int (length bs)) \<and>
         (\<forall>i < length bs. uint (bs ! i) mod 128 = v div 128 ^ i mod 128 \<and>
                           (bit (bs ! i) 7 \<longleftrightarrow> Suc i < length bs))"
proof -
  have sv: "bs = spec_varint (v mod 2 ^ 32)" and s: "sint (word_of_int v :: 32 word) = v"
    using assms(2) by (auto simp: spec_varint_documented)
  have groups: "\<forall>i < length bs. uint (bs ! i) mod 128 = v div 128 ^ i mod 128 \<and>
                           (bit (bs ! i) 7 \<longleftrightarrow> Suc i < length bs)"
    using assms(2) by (auto simp: less_Suc_eq bit_iff_odd)
  show ?thesis
    using setVarInt_region [OF assms(1), of off v] getVarInt_region [OF assms(1), of off v]
      assms(3) groups unfolding sv [symmetric] s by simp
qed

text \<open>The value 255 at offset 1 of a six-byte view that starts at byte 1 of its buffer.\<close>

theorem setVarInt_documented_bytes_witness:
  "setVarInt \<lparr>buffer = [9, 9, 9, 9, 9, 9, 9, 9], super_byteOffset = 1, byteLength = 6,
              byteOffset = 0\<rparr> 1 255 None =
     (Inr 2, \<lparr>buffer = [9, 9, 0xff, 0x01, 9, 9, 9, 9], super_byteOffset = 1, byteLength = 6,
              byteOffset = 0\<rparr>) \<and>
   getVarInt \<lparr>buffer = [9, 9, 0xff, 0x01, 9, 9, 9, 9], super_byteOffset = 1, byteLength = 6,
              byteOffset = 0\<rparr> 1 None = Inr (255, 2)"
  using setVarInt_documented_bytes [of "\<lparr>buffer = [9, 9, 9, 9, 9, 9, 9, 9], super_byteOffset = 1,
      byteLength = 6, byteOffset = 0\<rparr>" 255 "[0xff, 0x01]" 1]
  by (simp add: valid_view_def in_view_def region_def)

lemma getVarInt_loop_exceeded:
  assumes "\<And>i. len \<le> i \<Longrightarrow> i < m \<Longrightarrow>
             in_view b (off + i) 1 \<and> bit (buffer b ! (super_byteOffset b + nat (off + i))) 7"
  shows "getVarInt_loop b off m acc len sh = Inl LengthExceeded"
  using assms
proof (induction b off m acc len sh rule: getVarInt_loop.induct)
  case (1 b off m acc len sh)
  show ?case
  proof (cases "len < m")
    case False
    then show ?thesis
      by (subst getVarInt_loop.simps) simp
  next
    case True
    let ?w = "buffer b ! (super_byteOffset b + nat (off + len))"
    have w: "in_view b (off + len) 1" "bit ?w 7"
      using "1.prems" [of len] True by simp_all
    have byte: "getUint8 b (off + len) = Inr (uint ?w)"
      using w(1) by (simp add: getUint8_def)
    have cont: "js_and (uint ?w) 0x80 \<noteq> 0"
      using w(2) by (simp add: js_and_128_iff bit_uint_iff)
    have "getVarInt_loop b off m (js_or acc (js_shl (js_and (uint ?w) 0x7f) sh)) (len + 1) (sh + 7) =
        Inl LengthExceeded"
      by (rule "1.IH" [OF True byte refl cont]) (use "1.prems" in simp)
    then show ?thesis
      using True cont by (subst getVarInt_loop.simps) (simp add: byte)
  qed
qed

text \<open>
  C7. When each of the \<^verbatim>\<open>maxByteLength\<close> bytes from the offset on (10 when the argument
  is omitted) lies in the view and has its continuation bit \<open>0x80\<close> set,
  \<^verbatim>\<open>getVarInt\<close> fails with \<open>LengthExceeded\<close> and returns no value, and \<^verbatim>\<open>readVarInt\<close>,
  which reads at the cursor, fails the same way and leaves the buffer and its cursor as
  they were.
\<close>

theorem getVarInt_LengthExceeded:
  assumes "\<forall>i. 0 \<le> i \<and> i < (case maxByteLength of None \<Rightarrow> 10 | Some m \<Rightarrow> m) \<longrightarrow>
             in_view b (off + i) 1 \<and> bit (buffer b ! (super_byteOffset b + nat (off + i))) 7"
  shows "getVarInt b off maxByteLength = Inl LengthExceeded \<and>
         (off = byteOffset b \<longrightarrow> readVarInt b maxByteLength = (Inl LengthExceeded, b))"
proof -
  have "getVarInt b off maxByteLength = Inl LengthExceeded"
    unfolding getVarInt_def by (rule getVarInt_loop_exceeded) (use assms in simp)
  then show ?thesis
    by (auto simp: readVarInt_def)
qed

text \<open>Three continued bytes with \<^verbatim>\<open>maxByteLength = 3\<close>.\<close>

theorem getVarInt_LengthExceeded_witness:
  "getVarInt \<lparr>buffer = [0x80, 0xff, 0x81, 0x05], super_byteOffset = 0, byteLength = 4,
              byteOffset = 0\<rparr> 0 (Some 3) = Inl LengthExceeded \<and>
   readVarInt \<lparr>buffer = [0x80, 0xff, 0x81, 0x05], super_byteOffset = 0, byteLength = 4,
              byteOffset = 0\<rparr> (Some 3) =
     (Inl LengthExceeded, \<lparr>buffer = [0x80, 0xff, 0x81, 0x05], super_byteOffset = 0,
                            byteLength = 4, byteOffset = 0\<rparr>)"
proof -
  have "\<forall>i. 0 \<le> i \<and> i < (case Some 3 of None \<Rightarrow> 10 | Some m \<Rightarrow> m) \<longrightarrow>
      in_view \<lparr>buffer = [0x80, 0xff, 0x81, 0x05], super_byteOffset = 0, byteLength = 4,
              byteOffset = 0\<rparr> (0 + i) 1 \<and>
      bit (buffer \<lparr>buffer = [0x80, 0xff, 0x81, 0x05], super_byteOffset = 0, byteLength = 4,
              byteOffset = 0\<rparr> ! (super_byteOffset \<lparr>buffer = [0x80, 0xff, 0x81, 0x05],
              super_byteOffset = 0, byteLength = 4, byteOffset = 0\<rparr> + nat (0 + i))) (7::nat)"
  proof (intro allI impI)
    fix i :: int
    assume "0 \<le> i \<and> i < (case Some 3 of None \<Rightarrow> 10 | Some m \<Rightarrow> m)"
    then have "i = 0 \<or> i = 1 \<or> i = 2"
      by auto
    then show "in_view \<lparr>buffer = [0x80, 0xff, 0x81, 0x05], super_byteOffset = 0, byteLength = 4,
              byteOffset = 0\<rparr> (0 + i) 1 \<and>
      bit (buffer \<lparr>buffer = [0x80, 0xff, 0x81, 0x05], super_byteOffset = 0, byteLength = 4,
              byteOffset = 0\<rparr> ! (super_byteOffset \<lparr>buffer = [0x80, 0xff, 0x81, 0x05],
              super_byteOffset = 0, byteLength = 4, byteOffset = 0\<rparr> + nat (0 + i))) (7::nat)"
      by (auto simp: in_view_def bit_iff_odd)
  qed
  from getVarInt_LengthExceeded [OF this] show ?thesis
    by simp
qed

subsection \<open>Zigzag\<close>

text \<open>
  For a number of magnitude below \<open>2\<^sup>3\<^sup>0\<close> the zigzag value has bit 31 clear and the
  codec returns what was written.
\<close>

lemma sint_word_of_int_signed_32:
  assumes "- (2 ^ 31) \<le> x" and "x < 2 ^ 31"
  shows "sint (word_of_int x :: 32 word) = x"
  using assms by (simp add: sint_sbintrunc' signed_take_bit_int_eq_self)

lemma js_xor_int: "js_xor a b = sint (word_of_int (a XOR b) :: 32 word)"
  by (simp add: js_xor_def word_wi_log_defs)

lemma js_shl_1: "js_shl n 1 = sint (word_of_int (2 * n) :: 32 word)"
  by (simp add: js_shl_def push_bit_eq_mult mult.commute)

lemma js_sar_int:
  assumes "- (2 ^ 31) \<le> x" and "x < 2 ^ 31" and "k < 32"
  shows "js_sar x (int k) = x div 2 ^ k"
proof -
  have "sint (signed_drop_bit k (word_of_int x :: 32 word)) = drop_bit k (sint (word_of_int x :: 32 word))"
    by (rule sint_signed_drop_bit_eq)
  then show ?thesis
    using assms by (simp add: js_sar_def sint_word_of_int_signed_32 drop_bit_eq_div)
qed

lemma js_and_1: "js_and x 1 = x mod 2"
proof -
  have "uint ((word_of_int x :: 32 word) AND 1) = x mod 2"
    by (simp add: uint_and uint_word_of_int and_one_eq uint_mod_distrib mod_mod_cancel)
  moreover have "sint ((word_of_int x :: 32 word) AND 1) = uint ((word_of_int x :: 32 word) AND 1)"
    by (rule sint_eq_uint_32) (use calculation pos_mod_bound [of 2 x] in simp)
  ultimately show ?thesis
    by (simp add: js_and_def)
qed

lemma setVarZint_zigzag:
  assumes "- (2 ^ 30) \<le> n" and "n < 2 ^ 30"
  shows "js_xor (js_sar n 31) (js_shl n 1) = zigzag n"
proof -
  have sar: "js_sar n 31 = (if 0 \<le> n then 0 else - 1)"
    using js_sar_int [of n 31] assms by (auto simp: div_pos_pos_trivial div_pos_neg_trivial)
  have shl: "js_shl n 1 = 2 * n"
    unfolding js_shl_1 by (rule sint_word_of_int_signed_32) (use assms in simp_all)
  show ?thesis
  proof (cases "0 \<le> n")
    case True
    have "sint (word_of_int (0 XOR 2 * n) :: 32 word) = 2 * n"
      using sint_word_of_int_signed_32 [of "2 * n"] True assms by simp
    then show ?thesis
      using True unfolding sar shl js_xor_int zigzag_def by simp
  next
    case False
    have "(- 1) XOR (2 * n) = - 2 * n - 1"
      by (simp add: not_int_def)
    moreover have "sint (word_of_int (- 2 * n - 1) :: 32 word) = - 2 * n - 1"
      by (rule sint_word_of_int_signed_32) (use False assms in simp_all)
    ultimately show ?thesis
      using False unfolding sar shl js_xor_int zigzag_def by (simp only: if_False)
  qed
qed

lemma getVarZint_zigzag:
  assumes "- (2 ^ 30) \<le> n" and "n < 2 ^ 30"
  shows "js_xor (js_sar (zigzag n) 1) (- js_and (zigzag n) 1) = n"
proof (cases "0 \<le> n")
  case True
  have "js_sar (2 * n) 1 = 2 * n div 2 ^ 1"
    using js_sar_int [of "2 * n" 1] True assms by simp
  then show ?thesis
    using True assms by (simp add: zigzag_def js_and_1 js_xor_int sint_word_of_int_signed_32)
next
  case False
  have "js_sar (- 2 * n - 1) 1 = (- 2 * n - 1) div 2 ^ 1"
    using js_sar_int [of "- 2 * n - 1" 1] False assms by simp
  moreover have "(- 2 * n - 1) div 2 = - n - 1" "(- 2 * n - 1) mod 2 = 1"
    by presburger+
  moreover have "(- n - 1) XOR (- 1) = n"
    by (simp add: not_int_def)
  ultimately show ?thesis
    using False assms by (simp add: zigzag_def js_and_1 js_xor_int sint_word_of_int_signed_32)
qed

lemma zigzag_roundtrip_small:
  assumes "valid_view b" and "in_view b off 5" and "- (2 ^ 30) \<le> n" and "n < 2 ^ 30"
  shows "setVarZint b off n None =
           (Inr (int (length (spec_varint (zigzag n)))), region b off (spec_varint (zigzag n))) \<and>
         getVarZint (region b off (spec_varint (zigzag n))) off None =
           Inr (n, int (length (spec_varint (zigzag n))))"
proof -
  have z: "0 \<le> zigzag n" "zigzag n < 2 ^ 31"
    using assms(3,4) by (simp_all add: zigzag_def)
  then have m: "zigzag n mod 2 ^ 32 = zigzag n"
    by simp
  have "length (spec_varint (zigzag n)) \<le> Suc 4"
    by (rule spec_varint_length_le) (use z in simp_all)
  then have "in_view b off (length (spec_varint (zigzag n)))"
    using assms(2) by (simp add: in_view_def)
  then have v: "in_view b off (length (spec_varint (zigzag n mod 2 ^ 32)))"
    by (simp only: m)
  have s: "sint (word_of_int (zigzag n) :: 32 word) = zigzag n"
    by (rule sint_word_of_int_32) (use z in simp_all)
  note set = setVarInt_region [OF assms(1) v, unfolded m]
  note get = getVarInt_region [OF assms(1) v, unfolded m s]
  show ?thesis
    using set get setVarZint_zigzag [OF assms(3,4)] getVarZint_zigzag [OF assms(3,4)]
    by (simp add: setVarZint_def getVarZint_def)
qed

text \<open>
  C2. The zigzag round trip fails at \<open>n = 2\<^sup>3\<^sup>0\<close>. \<^verbatim>\<open>setVarZint\<close> maps it to
  \<open>zz = -2\<^sup>3\<^sup>1\<close> (bit 31 set) and writes \<open>[0x80, 0x80, 0x80, 0x80, 0x08]\<close>;
  \<^verbatim>\<open>getVarZint\<close> decodes \<open>zz\<close> as a signed number and shifts it with the
  sign-propagating \<^verbatim>\<open>>>\<close>, which gives \<open>-2\<^sup>3\<^sup>0\<close>, where the unsigned shift
  \<^verbatim>\<open>>>>\<close> would give \<open>2\<^sup>3\<^sup>0\<close> back.
\<close>

theorem zigzag_roundtrip_fails:
  "setVarZint \<lparr>buffer = [0, 0, 0, 0, 0], super_byteOffset = 0, byteLength = 5,
               byteOffset = 0\<rparr> 0 1073741824 None =
     (Inr 5, \<lparr>buffer = [0x80, 0x80, 0x80, 0x80, 0x08], super_byteOffset = 0, byteLength = 5,
              byteOffset = 0\<rparr>) \<and>
   getVarZint \<lparr>buffer = [0x80, 0x80, 0x80, 0x80, 0x08], super_byteOffset = 0, byteLength = 5,
               byteOffset = 0\<rparr> 0 None = Inr (- 1073741824, 5) \<and>
   js_xor (js_sar 1073741824 31) (js_shl 1073741824 1) = - 2147483648 \<and>
   js_sar (- 2147483648) 1 = - 1073741824 \<and>
   js_shr (- 2147483648) 1 = 1073741824"
  by code_simp

subsection \<open>Construction and the cursor\<close>

text \<open>
  Every ByteBuf is constructed, and reset, with its cursor at the start of the view in
  the buffer; \<^verbatim>\<open>from\<close> over a typed array gives the view the smaller of the requested
  and the array's length wherever it starts; and an array view made with no length ends
  where the buffer ends.
\<close>

lemma new_ByteBuf_cursor:
  assumes "new_ByteBuf buf off len = Inr b"
  shows "valid_view b \<and> byteOffset b = int (super_byteOffset b) \<and>
         byteOffset (reset (skip b n)) = int (super_byteOffset b) \<and>
         bytesRemaining b = int (byteLength b) - int (super_byteOffset b)"
  using assms
  by (auto simp: new_ByteBuf_def Let_def valid_view_def reset_def skip_def bytesRemaining_def
      split: option.splits if_splits)

lemma ByteBuf_from_cursor:
  assumes "ByteBuf_from source off len = Inr b"
  shows "byteOffset b = int (super_byteOffset b)"
  using assms new_ByteBuf_cursor [of "source_buffer source" _ _ b 0]
  by (auto simp: ByteBuf_from_def Let_def split: option.splits)

lemma ByteBuf_from_view_length:
  assumes "ByteBuf_from (ArrayBufferView buf soff slen) off (Some n) = Inr b"
  shows "int (byteLength b) = min (int slen) n"
  using assms
  by (auto simp: ByteBuf_from_def new_ByteBuf_def Let_def split: option.splits if_splits)

lemma getUint8Array_omitted:
  assumes "getUint8Array b off None = Inr a"
  shows "int (array_byteOffset a) = int (super_byteOffset b) + off \<and>
         array_byteOffset a + array_length a = length (buffer b)"
  using assms
  by (auto simp: getUint8Array_def new_TypedArray_def split: if_splits)

text \<open>
  C3. A ByteBuf made from a two-byte typed array that starts at byte 2 of its buffer has
  its cursor at 2, not at 0; \<^verbatim>\<open>reset\<close> puts it back to 2; no byte is reported as
  remaining; and the first streaming read is out of bounds, since the accessors of
  DataView take the cursor as an offset into the view.
\<close>

theorem fresh_view_cursor_at_base:
  "ByteBuf_from (ArrayBufferView [0, 0, 0, 0] 2 2) None None =
     Inr \<lparr>buffer = [0, 0, 0, 0], super_byteOffset = 2, byteLength = 2, byteOffset = 2\<rparr> \<and>
   reset (skip \<lparr>buffer = [0, 0, 0, 0], super_byteOffset = 2, byteLength = 2, byteOffset = 2\<rparr> 1) =
     \<lparr>buffer = [0, 0, 0, 0], super_byteOffset = 2, byteLength = 2, byteOffset = 2\<rparr> \<and>
   bytesRemaining \<lparr>buffer = [0, 0, 0, 0], super_byteOffset = 2, byteLength = 2,
                   byteOffset = 2\<rparr> = 0 \<and>
   readUint8 \<lparr>buffer = [0, 0, 0, 0], super_byteOffset = 2, byteLength = 2, byteOffset = 2\<rparr> =
     (Inl OutOfBounds,
      \<lparr>buffer = [0, 0, 0, 0], super_byteOffset = 2, byteLength = 2, byteOffset = 3\<rparr>)"
  by code_simp

text \<open>
  C6. \<^verbatim>\<open>from\<close> clamps the requested length to the source's whole length, not to what
  is left of the source after the offset: over a four-byte typed array at the start of
  an eight-byte buffer, offset 2 and length 4 give a view of four bytes, two of them
  beyond the source; over a four-byte ArrayBuffer the same call throws; and with the
  length omitted the view runs to the end of the buffer, beyond the four-byte source.
\<close>

theorem from_length_not_clamped_to_remaining:
  "ByteBuf_from (ArrayBufferView [0, 0, 0, 0, 0, 0, 0, 0] 0 4) (Some 2) (Some 4) =
     Inr \<lparr>buffer = [0, 0, 0, 0, 0, 0, 0, 0], super_byteOffset = 2, byteLength = 4,
          byteOffset = 2\<rparr> \<and>
   ByteBuf_from (ArrayBuffer [0, 0, 0, 0]) (Some 2) (Some 4) = Inl OutOfBounds \<and>
   ByteBuf_from (ArrayBufferView [0, 0, 0, 0, 0, 0, 0, 0] 0 4) None None =
     Inr \<lparr>buffer = [0, 0, 0, 0, 0, 0, 0, 0], super_byteOffset = 0, byteLength = 8,
          byteOffset = 0\<rparr>"
  by code_simp

subsection \<open>Failed streaming reads\<close>

text \<open>
  C10. When the bytes a streaming fixed-width read needs do not lie in the view, the read
  fails with \<open>OutOfBounds\<close>; the reads of two, four and eight bytes leave the buffer
  and its cursor unchanged, and the one-byte reads \<^verbatim>\<open>readBool\<close>, \<^verbatim>\<open>readInt8\<close> and
  \<^verbatim>\<open>readUint8\<close> have advanced the cursor by 1.
\<close>

theorem failed_read_cursor:
  "(\<not> in_view b (byteOffset b) 1 \<longrightarrow>
      readBool b = (Inl OutOfBounds, b\<lparr>byteOffset := byteOffset b + 1\<rparr>) \<and>
      readInt8 b = (Inl OutOfBounds, b\<lparr>byteOffset := byteOffset b + 1\<rparr>) \<and>
      readUint8 b = (Inl OutOfBounds, b\<lparr>byteOffset := byteOffset b + 1\<rparr>)) \<and>
   (\<not> in_view b (byteOffset b) 2 \<longrightarrow>
      readInt16 b le = (Inl OutOfBounds, b) \<and> readUint16 b le = (Inl OutOfBounds, b)) \<and>
   (\<not> in_view b (byteOffset b) 4 \<longrightarrow>
      readInt32 b le = (Inl OutOfBounds, b) \<and> readUint32 b le = (Inl OutOfBounds, b) \<and>
      readFloat32 b le = (Inl OutOfBounds, b)) \<and>
   (\<not> in_view b (byteOffset b) 8 \<longrightarrow>
      readFloat64 b le = (Inl OutOfBounds, b) \<and> readInt64 b le = (Inl OutOfBounds, b) \<and>
      readUint64 b le = (Inl OutOfBounds, b) \<and> readBigInt64 b le = (Inl OutOfBounds, b) \<and>
      readBigUint64 b le = (Inl OutOfBounds, b))"
proof (intro conjI impI)
  assume "\<not> in_view b (byteOffset b) 1"
  then show "readBool b = (Inl OutOfBounds, b\<lparr>byteOffset := byteOffset b + 1\<rparr>)"
    and "readInt8 b = (Inl OutOfBounds, b\<lparr>byteOffset := byteOffset b + 1\<rparr>)"
    and "readUint8 b = (Inl OutOfBounds, b\<lparr>byteOffset := byteOffset b + 1\<rparr>)"
    by (simp_all add: readBool_def readInt8_def readUint8_def getInt8_def getUint8_def advance_def)
next
  assume "\<not> in_view b (byteOffset b) 2"
  then show "readInt16 b le = (Inl OutOfBounds, b)" and "readUint16 b le = (Inl OutOfBounds, b)"
    by (simp_all add: readInt16_def readUint16_def getInt16_def getUint16_def
        GetViewValue_outside read_after_def)
next
  assume "\<not> in_view b (byteOffset b) 4"
  then show "readInt32 b le = (Inl OutOfBounds, b)" and "readUint32 b le = (Inl OutOfBounds, b)"
    and "readFloat32 b le = (Inl OutOfBounds, b)"
    by (simp_all add: readInt32_def readUint32_def readFloat32_def getInt32_def getUint32_def
        getFloat32_def GetViewValue_outside read_after_def)
next
  assume "\<not> in_view b (byteOffset b) 8"
  then show "readFloat64 b le = (Inl OutOfBounds, b)" and "readInt64 b le = (Inl OutOfBounds, b)"
    and "readUint64 b le = (Inl OutOfBounds, b)" and "readBigInt64 b le = (Inl OutOfBounds, b)"
    and "readBigUint64 b le = (Inl OutOfBounds, b)"
    by (simp_all add: readFloat64_def readInt64_def readUint64_def readBigInt64_def
        readBigUint64_def getFloat64_def getInt64_def getUint64_def getBigInt64_def
        getBigUint64_def GetViewValue_outside read_after_def)
qed

text \<open>A one-byte view with its cursor at the end.\<close>

theorem failed_read_cursor_witness:
  "readUint8 \<lparr>buffer = [7], super_byteOffset = 0, byteLength = 1, byteOffset = 1\<rparr> =
     (Inl OutOfBounds, \<lparr>buffer = [7], super_byteOffset = 0, byteLength = 1, byteOffset = 2\<rparr>) \<and>
   readInt16 \<lparr>buffer = [7], super_byteOffset = 0, byteLength = 1, byteOffset = 1\<rparr> False =
     (Inl OutOfBounds, \<lparr>buffer = [7], super_byteOffset = 0, byteLength = 1, byteOffset = 1\<rparr>) \<and>
   readUint32 \<lparr>buffer = [7], super_byteOffset = 0, byteLength = 1, byteOffset = 1\<rparr> False =
     (Inl OutOfBounds, \<lparr>buffer = [7], super_byteOffset = 0, byteLength = 1, byteOffset = 1\<rparr>) \<and>
   readBigInt64 \<lparr>buffer = [7], super_byteOffset = 0, byteLength = 1, byteOffset = 1\<rparr> False =
     (Inl OutOfBounds, \<lparr>buffer = [7], super_byteOffset = 0, byteLength = 1, byteOffset = 1\<rparr>)"
  using failed_read_cursor [of "\<lparr>buffer = [7], super_byteOffset = 0, byteLength = 1,
      byteOffset = 1\<rparr>" False]
  by (simp add: in_view_def)

subsection \<open>64-bit integers\<close>

lemma length_encode_le [simp]: "length (encode_le n v) = n"
  by (induction n arbitrary: v) simp_all

lemma decode_encode_le: "decode_le (encode_le n v) = v mod 256 ^ n"
proof (induction n arbitrary: v)
  case 0
  then show ?case by simp
next
  case (Suc n)
  have "v mod (256 * 256 ^ n) = 256 * (v div 256 mod 256 ^ n) + v mod 256"
    by (rule zmod_zmult2_eq) simp
  then show ?case
    by (simp add: Suc uint_word_of_int)
qed

lemma length_to_bytes [simp]: "length (to_bytes w le v) = w"
  by (simp add: to_bytes_def)

lemma from_to_bytes: "from_bytes le (to_bytes w le v) = v mod 256 ^ w"
  by (simp add: from_bytes_def to_bytes_def decode_encode_le)

lemma to_signed_mod:
  assumes "- (2 ^ 63) \<le> v" and "v < 2 ^ 63"
  shows "to_signed 64 (v mod 256 ^ 8) = v"
proof (cases "0 \<le> v")
  case True
  then have "v mod 256 ^ 8 = v"
    using assms by simp
  then show ?thesis
    using assms by (simp add: to_signed_def)
next
  case False
  then have "(v + 256 ^ 8) mod 256 ^ 8 = v + 256 ^ 8"
    using assms by (intro mod_pos_pos_trivial) simp_all
  moreover have "(v + 256 ^ 8) mod 256 ^ 8 = v mod 256 ^ 8"
    by (rule mod_add_self2)
  ultimately have "v mod 256 ^ 8 = v + 256 ^ 8"
    by simp
  then show ?thesis
    using False assms by (simp add: to_signed_def)
qed

lemma bit_len_le: "a < 2 ^ k \<Longrightarrow> bit_len a \<le> k"
proof (induction k arbitrary: a)
  case 0
  then show ?case by (subst bit_len.simps) simp
next
  case (Suc k)
  have "a div 2 < 2 ^ k"
    using Suc.prems by simp
  then have "bit_len (a div 2) \<le> k"
    by (rule Suc.IH)
  then show ?case
    by (subst bit_len.simps) simp
qed

lemma Number_small:
  assumes "\<bar>v\<bar> \<le> 2 ^ 53"
  shows "Number v = v"
proof (cases "\<bar>v\<bar> = 2 ^ 53")
  case True
  have "bit_len (2 ^ 53) = 54"
    by code_simp
  moreover have "v = 2 ^ 53 \<or> v = - (2 ^ 53)"
    using True by linarith
  ultimately show ?thesis
    by (auto simp: Number_def Let_def)
next
  case False
  then have "\<bar>v\<bar> < 2 ^ 53"
    using assms by simp
  then have "bit_len \<bar>v\<bar> \<le> 53"
    by (rule bit_len_le)
  then show ?thesis
    by (simp add: Number_def)
qed

text \<open>
  C5, as the code has it. \<^verbatim>\<open>setBigInt64\<close> and \<^verbatim>\<open>getBigInt64\<close> round-trip every
  signed 64-bit integer, \<^verbatim>\<open>setBigUint64\<close> and \<^verbatim>\<open>getBigUint64\<close> every unsigned one.
  \<^verbatim>\<open>setInt64\<close> and \<^verbatim>\<open>getInt64\<close>, and their unsigned forms, take and return a
  JavaScript number: they round-trip the integers of the domain that a double holds
  exactly, among them every integer of magnitude up to \<open>2\<^sup>5\<^sup>3\<close>.
\<close>

theorem int64_roundtrip_of_doubles:
  assumes "valid_view b" and "in_view b off 8"
  shows "(- (2 ^ 63) \<le> v \<and> v < 2 ^ 63 \<longrightarrow>
            setBigInt64 b off v le = Inr (region b off (to_bytes 8 le v)) \<and>
            getBigInt64 (region b off (to_bytes 8 le v)) off le = Inr v) \<and>
         (0 \<le> v \<and> v < 2 ^ 64 \<longrightarrow>
            setBigUint64 b off v le = Inr (region b off (to_bytes 8 le v)) \<and>
            getBigUint64 (region b off (to_bytes 8 le v)) off le = Inr v) \<and>
         (- (2 ^ 63) \<le> v \<and> v < 2 ^ 63 \<and> (\<bar>v\<bar> \<le> 2 ^ 53 \<or> Number v = v) \<longrightarrow>
            setInt64 b off v le = Inr (region b off (to_bytes 8 le v)) \<and>
            getInt64 (region b off (to_bytes 8 le v)) off le = Inr v) \<and>
         (0 \<le> v \<and> v < 2 ^ 64 \<and> (\<bar>v\<bar> \<le> 2 ^ 53 \<or> Number v = v) \<longrightarrow>
            setUint64 b off v le = Inr (region b off (to_bytes 8 le v)) \<and>
            getUint64 (region b off (to_bytes 8 le v)) off le = Inr v)"
proof -
  have set: "SetViewValue b off (to_bytes 8 le v) = Inr (region b off (to_bytes 8 le v))"
    using assms(2) by (simp add: SetViewValue_region)
  have get: "GetViewValue (region b off (to_bytes 8 le v)) off 8 = Inr (to_bytes 8 le v)"
    using GetViewValue_region [OF assms(1), of off "to_bytes 8 le v"] assms(2) by simp
  have s: "getBigInt64 (region b off (to_bytes 8 le v)) off le = Inr v"
    if "- (2 ^ 63) \<le> v" "v < 2 ^ 63"
    using to_signed_mod [OF that] by (simp add: getBigInt64_def get from_to_bytes)
  have u: "getBigUint64 (region b off (to_bytes 8 le v)) off le = Inr v"
    if "0 \<le> v" "v < 2 ^ 64"
    using that by (simp add: getBigUint64_def get from_to_bytes)
  have n: "Number v = v" if "\<bar>v\<bar> \<le> 2 ^ 53 \<or> Number v = v"
    using that Number_small by blast
  show ?thesis
    using s u n
    by (simp add: setBigInt64_def setBigUint64_def setInt64_def setUint64_def BigInt_def set
        getInt64_def getUint64_def)
qed

text \<open>The largest fixture of the tests, \<open>2\<^sup>5\<^sup>3 - 1\<close>, big-endian.\<close>

theorem int64_roundtrip_of_doubles_witness:
  "setInt64 \<lparr>buffer = [0, 0, 0, 0, 0, 0, 0, 0], super_byteOffset = 0, byteLength = 8,
             byteOffset = 0\<rparr> 0 9007199254740991 False =
     Inr \<lparr>buffer = [0x00, 0x1f, 0xff, 0xff, 0xff, 0xff, 0xff, 0xff], super_byteOffset = 0,
          byteLength = 8, byteOffset = 0\<rparr> \<and>
   getInt64 \<lparr>buffer = [0x00, 0x1f, 0xff, 0xff, 0xff, 0xff, 0xff, 0xff], super_byteOffset = 0,
          byteLength = 8, byteOffset = 0\<rparr> 0 False = Inr 9007199254740991 \<and>
   getUint64 \<lparr>buffer = [0x00, 0x1f, 0xff, 0xff, 0xff, 0xff, 0xff, 0xff], super_byteOffset = 0,
          byteLength = 8, byteOffset = 0\<rparr> 0 False = Inr 9007199254740991 \<and>
   getBigInt64 \<lparr>buffer = [0x00, 0x1f, 0xff, 0xff, 0xff, 0xff, 0xff, 0xff], super_byteOffset = 0,
          byteLength = 8, byteOffset = 0\<rparr> 0 False = Inr 9007199254740991 \<and>
   getBigUint64 \<lparr>buffer = [0x00, 0x1f, 0xff, 0xff, 0xff, 0xff, 0xff, 0xff], super_byteOffset = 0,
          byteLength = 8, byteOffset = 0\<rparr> 0 False = Inr 9007199254740991"
proof -
  have r: "region \<lparr>buffer = [0, 0, 0, 0, 0, 0, 0, 0], super_byteOffset = 0, byteLength = 8,
             byteOffset = 0\<rparr> 0 (to_bytes 8 False 9007199254740991) =
      \<lparr>buffer = [0x00, 0x1f, 0xff, 0xff, 0xff, 0xff, 0xff, 0xff], super_byteOffset = 0,
          byteLength = 8, byteOffset = 0\<rparr>"
    by code_simp
  show ?thesis
    using int64_roundtrip_of_doubles [of "\<lparr>buffer = [0, 0, 0, 0, 0, 0, 0, 0],
        super_byteOffset = 0, byteLength = 8, byteOffset = 0\<rparr>" 0 9007199254740991 False]
    unfolding r by (simp add: valid_view_def in_view_def)
qed

text \<open>
  C5 as stated fails at \<open>v = 2\<^sup>5\<^sup>3 + 1\<close>. The number nearest to it is \<open>2\<^sup>5\<^sup>3\<close>, which
  is what \<^verbatim>\<open>setInt64\<close> receives and stores; and when the buffer does hold
  \<open>2\<^sup>5\<^sup>3 + 1\<close>, written by \<^verbatim>\<open>setBigInt64\<close>, \<^verbatim>\<open>getInt64\<close> returns \<open>2\<^sup>5\<^sup>3\<close>.
\<close>

theorem int64_truncated_to_double:
  "Number 9007199254740993 = 9007199254740992 \<and>
   setInt64 \<lparr>buffer = [0, 0, 0, 0, 0, 0, 0, 0], super_byteOffset = 0, byteLength = 8,
             byteOffset = 0\<rparr> 0 (Number 9007199254740993) False =
     Inr \<lparr>buffer = [0x00, 0x20, 0x00, 0x00, 0x00, 0x00, 0x00, 0x00], super_byteOffset = 0,
          byteLength = 8, byteOffset = 0\<rparr> \<and>
   getInt64 \<lparr>buffer = [0x00, 0x20, 0x00, 0x00, 0x00, 0x00, 0x00, 0x00], super_byteOffset = 0,
          byteLength = 8, byteOffset = 0\<rparr> 0 False = Inr 9007199254740992 \<and>
   setBigInt64 \<lparr>buffer = [0, 0, 0, 0, 0, 0, 0, 0], super_byteOffset = 0, byteLength = 8,
             byteOffset = 0\<rparr> 0 9007199254740993 False =
     Inr \<lparr>buffer = [0x00, 0x20, 0x00, 0x00, 0x00, 0x00, 0x00, 0x01], super_byteOffset = 0,
          byteLength = 8, byteOffset = 0\<rparr> \<and>
   getInt64 \<lparr>buffer = [0x00, 0x20, 0x00, 0x00, 0x00, 0x00, 0x00, 0x01], super_byteOffset = 0,
          byteLength = 8, byteOffset = 0\<rparr> 0 False = Inr 9007199254740992 \<and>
   getInt64 \<lparr>buffer = [0x00, 0x20, 0x00, 0x00, 0x00, 0x00, 0x00, 0x01], super_byteOffset = 0,
          byteLength = 8, byteOffset = 0\<rparr> 0 False \<noteq> Inr 9007199254740993"
  by code_simp

subsection \<open>The cursor in the streaming operations\<close>

text \<open>
  A streaming operation that succeeds moves the cursor by the width of its type, or by
  the byte length its positional form returns; the positional setters leave the cursor
  alone, and the getters return no buffer at all.
\<close>

lemma advance_cursor [simp]: "byteOffset (advance b n) = byteOffset b + n"
  by (simp add: advance_def)

lemma read_after_Inr:
  "read_after r b w = (Inr v, b') \<Longrightarrow> r = Inr v \<and> b' = advance b w"
  by (auto simp: read_after_def split: sum.splits)

lemma SetViewValue_cursor: "SetViewValue b off bs = Inr b' \<Longrightarrow> byteOffset b' = byteOffset b"
  by (auto simp: SetViewValue_def split: if_splits)

lemma write_after_Inr:
  "write_after r b w = (Inr u, b') \<Longrightarrow> \<exists>b''. r = Inr b'' \<and> b' = advance b'' w"
  by (auto simp: write_after_def split: sum.splits)

lemma one_byte_streaming_cursor:
  "byteOffset (snd (readBool b)) = byteOffset b + 1"
  "byteOffset (snd (readInt8 b)) = byteOffset b + 1"
  "byteOffset (snd (readUint8 b)) = byteOffset b + 1"
  "byteOffset (snd (writeBool b x)) = byteOffset b + 1"
  "byteOffset (snd (writeInt8 b v)) = byteOffset b + 1"
  "byteOffset (snd (writeUint8 b v)) = byteOffset b + 1"
  by (auto simp: readBool_def readInt8_def readUint8_def writeBool_def writeInt8_def
      writeUint8_def write_before_def setInt8_def setUint8_def split: sum.splits if_splits)

lemma wide_reads_cursor:
  "readInt16 b le = (Inr v, b') \<Longrightarrow> byteOffset b' = byteOffset b + 2"
  "readUint16 b le = (Inr v, b') \<Longrightarrow> byteOffset b' = byteOffset b + 2"
  "readInt32 b le = (Inr v, b') \<Longrightarrow> byteOffset b' = byteOffset b + 4"
  "readUint32 b le = (Inr v, b') \<Longrightarrow> byteOffset b' = byteOffset b + 4"
  "readFloat32 b le = (Inr f, b') \<Longrightarrow> byteOffset b' = byteOffset b + 4"
  "readFloat64 b le = (Inr d, b') \<Longrightarrow> byteOffset b' = byteOffset b + 8"
  "readBigInt64 b le = (Inr v, b') \<Longrightarrow> byteOffset b' = byteOffset b + 8"
  "readBigUint64 b le = (Inr v, b') \<Longrightarrow> byteOffset b' = byteOffset b + 8"
  "readInt64 b le = (Inr v, b') \<Longrightarrow> byteOffset b' = byteOffset b + 8"
  "readUint64 b le = (Inr v, b') \<Longrightarrow> byteOffset b' = byteOffset b + 8"
  by (auto simp: readInt16_def readUint16_def readInt32_def readUint32_def readFloat32_def
      readFloat64_def readBigInt64_def readBigUint64_def readInt64_def readUint64_def
      dest!: read_after_Inr)

lemma wide_writes_cursor:
  "writeInt16 b v le = (Inr u, b') \<Longrightarrow> byteOffset b' = byteOffset b + 2"
  "writeUint16 b v le = (Inr u, b') \<Longrightarrow> byteOffset b' = byteOffset b + 2"
  "writeInt32 b v le = (Inr u, b') \<Longrightarrow> byteOffset b' = byteOffset b + 4"
  "writeUint32 b v le = (Inr u, b') \<Longrightarrow> byteOffset b' = byteOffset b + 4"
  "writeFloat32 b f le = (Inr u, b') \<Longrightarrow> byteOffset b' = byteOffset b + 4"
  "writeFloat64 b d le = (Inr u, b') \<Longrightarrow> byteOffset b' = byteOffset b + 8"
  "writeBigInt64 b v le = (Inr u, b') \<Longrightarrow> byteOffset b' = byteOffset b + 8"
  "writeBigUint64 b v le = (Inr u, b') \<Longrightarrow> byteOffset b' = byteOffset b + 8"
  "writeInt64 b v le = (Inr u, b') \<Longrightarrow> byteOffset b' = byteOffset b + 8"
  "writeUint64 b v le = (Inr u, b') \<Longrightarrow> byteOffset b' = byteOffset b + 8"
  by (auto simp: writeInt16_def writeUint16_def writeInt32_def writeUint32_def writeFloat32_def
      writeFloat64_def writeBigInt64_def writeBigUint64_def writeInt64_def writeUint64_def
      setInt16_def setUint16_def setInt32_def setUint32_def setFloat32_def setFloat64_def
      setBigInt64_def setBigUint64_def setInt64_def setUint64_def
      dest!: write_after_Inr SetViewValue_cursor)

lemma positional_sets_cursor:
  "setBool b off x = Inr b' \<Longrightarrow> byteOffset b' = byteOffset b"
  "setInt8 b off v = Inr b' \<Longrightarrow> byteOffset b' = byteOffset b"
  "setUint8 b off v = Inr b' \<Longrightarrow> byteOffset b' = byteOffset b"
  "setInt16 b off v le = Inr b' \<Longrightarrow> byteOffset b' = byteOffset b"
  "setUint16 b off v le = Inr b' \<Longrightarrow> byteOffset b' = byteOffset b"
  "setInt32 b off v le = Inr b' \<Longrightarrow> byteOffset b' = byteOffset b"
  "setUint32 b off v le = Inr b' \<Longrightarrow> byteOffset b' = byteOffset b"
  "setFloat32 b off f le = Inr b' \<Longrightarrow> byteOffset b' = byteOffset b"
  "setFloat64 b off d le = Inr b' \<Longrightarrow> byteOffset b' = byteOffset b"
  "setBigInt64 b off v le = Inr b' \<Longrightarrow> byteOffset b' = byteOffset b"
  "setBigUint64 b off v le = Inr b' \<Longrightarrow> byteOffset b' = byteOffset b"
  "setInt64 b off v le = Inr b' \<Longrightarrow> byteOffset b' = byteOffset b"
  "setUint64 b off v le = Inr b' \<Longrightarrow> byteOffset b' = byteOffset b"
  "setUint8Array b off bs = Inr b' \<Longrightarrow> byteOffset b' = byteOffset b"
  "setUint16Array b off ws = Inr b' \<Longrightarrow> byteOffset b' = byteOffset b"
  by (auto simp: setBool_def setInt8_def setUint8_def setInt16_def setUint16_def setInt32_def
      setUint32_def setFloat32_def setFloat64_def setBigInt64_def setBigUint64_def setInt64_def
      setUint64_def setUint8Array_def setUint16Array_def TypedArray_set_def
      split: if_splits sum.splits dest!: SetViewValue_cursor)

lemma setVarInt_loop_cursor:
  "byteOffset (snd (setVarInt_loop b off val m len)) = byteOffset b"
proof (induction b off val m len rule: setVarInt_loop.induct)
  case (1 b off val m len)
  show ?case
  proof (cases "len \<le> m")
    case False
    then show ?thesis by (subst setVarInt_loop.simps) simp
  next
    case True
    show ?thesis
    proof (cases "setUint8 b off (if js_shr val 7 \<noteq> 0 then js_or (js_and val 0x7f) 0x80
                                   else js_and val 0x7f)")
      case (Inl e)
      then show ?thesis
        using True by (subst setVarInt_loop.simps) (simp add: Let_def)
    next
      case (Inr b1)
      have c: "byteOffset b1 = byteOffset b"
        using Inr by (rule positional_sets_cursor)
      show ?thesis
      proof (cases "js_shr val 7 = 0")
        case z: True
        then show ?thesis
          using True Inr c by (subst setVarInt_loop.simps) (simp add: Let_def)
      next
        case nz: False
        have "byteOffset (snd (setVarInt_loop b1 (off + 1) (js_shr val 7) m (len + 1))) =
            byteOffset b1"
          using "1.IH" [OF True refl refl refl _ nz, of b1] Inr nz by simp
        then show ?thesis
          using True Inr c nz by (subst setVarInt_loop.simps) (simp add: Let_def)
      qed
    qed
  qed
qed

lemma varint_sets_cursor:
  "byteOffset (snd (setVarInt b off val m)) = byteOffset b"
  "byteOffset (snd (setVarUint b off val m)) = byteOffset b"
  "byteOffset (snd (setVarZint b off val m)) = byteOffset b"
  by (simp_all add: setVarInt_def setVarUint_def setVarZint_def setVarInt_loop_cursor)

lemma varint_streaming_cursor:
  "readVarInt b m = (Inr v, b') \<Longrightarrow>
     getVarInt b (byteOffset b) m = Inr (v, byteOffset b' - byteOffset b)"
  "readVarUint b m = (Inr v, b') \<Longrightarrow>
     getVarUint b (byteOffset b) m = Inr (v, byteOffset b' - byteOffset b)"
  "readVarZint b m = (Inr v, b') \<Longrightarrow>
     getVarZint b (byteOffset b) m = Inr (v, byteOffset b' - byteOffset b)"
  "writeVarInt b val m = (Inr u, b') \<Longrightarrow>
     fst (setVarInt b (byteOffset b) val m) = Inr (byteOffset b' - byteOffset b)"
  "writeVarUint b val m = (Inr u, b') \<Longrightarrow>
     fst (setVarUint b (byteOffset b) val m) = Inr (byteOffset b' - byteOffset b)"
  "writeVarZint b val m = (Inr u, b') \<Longrightarrow>
     fst (setVarZint b (byteOffset b) val m) = Inr (byteOffset b' - byteOffset b)"
  using varint_sets_cursor(1) [of b "byteOffset b" val m]
    varint_sets_cursor(2) [of b "byteOffset b" val m]
    varint_sets_cursor(3) [of b "byteOffset b" val m]
  by (auto simp: readVarInt_def readVarUint_def readVarZint_def writeVarInt_def
      writeVarUint_def writeVarZint_def split: sum.splits prod.splits)

lemma array_streaming_cursor:
  "readUint8Array b len = (Inr a, b') \<Longrightarrow>
     byteOffset b' = byteOffset b + int (array_byteLength a)"
  "readUint16Array b len = (Inr a, b') \<Longrightarrow>
     byteOffset b' = byteOffset b + int (array_byteLength a)"
  "writeUint8Array b bs = (Inr u, b') \<Longrightarrow> byteOffset b' = byteOffset b + int (length bs)"
  "writeUint16Array b ws = (Inr u, b') \<Longrightarrow>
     byteOffset b' = byteOffset b + int (length (uint16_bytes ws))"
proof -
  have "length (uint16_bytes ws) = 2 * length ws"
    by (induction ws) (simp_all add: uint16_bytes_def)
  then show "writeUint16Array b ws = (Inr u, b') \<Longrightarrow>
     byteOffset b' = byteOffset b + int (length (uint16_bytes ws))"
    by (auto simp: writeUint16Array_def dest!: write_after_Inr positional_sets_cursor)
qed (auto simp: readUint8Array_def readUint16Array_def writeUint8Array_def
      split: sum.splits dest!: write_after_Inr positional_sets_cursor)

lemma string_streaming_cursor:
  "readString known b (Some n) enc = (Inr (Decoded l bs), b') \<Longrightarrow>
     byteOffset b' = byteOffset b + n \<and> int (length bs) = n"
  "writeString b val enc = (Inr u, b') \<Longrightarrow>
     fst (setString b (byteOffset b) val enc) = Inr (byteOffset b' - byteOffset b)"
  by (auto simp: readString_def getString_def getUint8Array_def new_TypedArray_def
      array_bytes_def array_byteLength_def writeString_def setString_def Let_def
      split: sum.splits prod.splits if_splits)

lemma setVarString_cursor: "byteOffset (snd (setVarString b off val)) = byteOffset b"
proof -
  obtain r b1 where s: "setVarInt b off (int (length (TextEncoder_encode val))) None = (r, b1)"
    by (cases "setVarInt b off (int (length (TextEncoder_encode val))) None")
  have c: "byteOffset b1 = byteOffset b"
    using varint_sets_cursor(1) [of b off "int (length (TextEncoder_encode val))" None]
    by (simp add: s)
  show ?thesis
  proof (cases r)
    case (Inl e)
    then show ?thesis
      by (simp add: setVarString_def Let_def s c)
  next
    case (Inr d)
    then show ?thesis
      using positional_sets_cursor(14) [of b1 "off + d" "TextEncoder_encode val"]
      by (simp add: setVarString_def Let_def s c split: sum.splits)
  qed
qed

lemma varstring_streaming_cursor:
  "readVarString known b m = (Inr str, b') \<Longrightarrow>
     getVarString known b (byteOffset b) m = Inr (str, byteOffset b' - byteOffset b)"
  "writeVarString b val = (Inr n, b') \<Longrightarrow>
     fst (setVarString b (byteOffset b) val) = Inr n \<and> byteOffset b' = byteOffset b + n"
  using setVarString_cursor [of b "byteOffset b" val]
  by (auto simp: readVarString_def writeVarString_def split: sum.splits prod.splits)

subsection \<open>Arrays and strings\<close>

text \<open>
  C9. Over a four-byte buffer, a view of the first two bytes: \<^verbatim>\<open>getUint8Array(0)\<close>
  returns an array of all four bytes and \<^verbatim>\<open>getString(0)\<close> decodes all four, two of
  them beyond the view's \<^verbatim>\<open>byteLength\<close>.
\<close>

theorem omitted_length_reaches_buffer_end:
  "getUint8Array \<lparr>buffer = [0x48, 0x69, 0x21, 0x21], super_byteOffset = 0, byteLength = 2,
                  byteOffset = 0\<rparr> 0 None = Inr (TypedArray 1 0 4) \<and>
   getString sample_labels \<lparr>buffer = [0x48, 0x69, 0x21, 0x21], super_byteOffset = 0,
                  byteLength = 2, byteOffset = 0\<rparr> 0 None None =
     Inr (Decoded ''utf-8'' [0x48, 0x69, 0x21, 0x21])"
  by code_simp

text \<open>
  C4. On the same view \<^verbatim>\<open>readString()\<close> decodes four bytes and moves the cursor
  from 0 to 2, the view's \<^verbatim>\<open>byteLength\<close>.
\<close>

theorem readString_cursor_short_of_bytes_read:
  "readString sample_labels \<lparr>buffer = [0x48, 0x69, 0x21, 0x21], super_byteOffset = 0,
                  byteLength = 2, byteOffset = 0\<rparr> None None =
     (Inr (Decoded ''utf-8'' [0x48, 0x69, 0x21, 0x21]),
      \<lparr>buffer = [0x48, 0x69, 0x21, 0x21], super_byteOffset = 0, byteLength = 2,
       byteOffset = 2\<rparr>)"
  by code_simp









end
